theory Spec2Isabelle
  imports Main "HOL-Library.Sublist"
begin

section \<open>Data model\<close>

text \<open>
  The package \<^verbatim>\<open>proctree\<close> keeps \<^verbatim>\<open>*Process\<close> objects that point at each other
  (parent pointer, child slices) and are shared between the pid map and the derived
  slices of the session. The objects live in an arena: an address is an index into the
  list \<open>heap\<close>, a \<^verbatim>\<open>*Process\<close> is an address, a nil pointer is \<open>None\<close>.
  \<^verbatim>\<open>newProcess\<close> allocates at the end of the arena, and nothing is ever freed.
\<close>

type_synonym addr = nat

text \<open>A record of the enumeration provider (\<^verbatim>\<open>gops.Process\<close>): \<^verbatim>\<open>Pid()\<close>, \<^verbatim>\<open>PPid()\<close>,
  \<^verbatim>\<open>Executable()\<close>.\<close>

record gops_Process =
  Pid :: int
  PPid :: int
  Executable :: string

text \<open>\<^verbatim>\<open>type Process struct\<close>; the back pointer \<^verbatim>\<open>pt\<close> only serves the lock and is left out.\<close>

record Process =
  gopsProcess :: gops_Process
  isTombstone :: bool
  parentProc :: "addr option"
  origParentProc :: "addr option"
  absChildProcs :: "addr list"
  includedChildProcs :: "addr list"
  isIncluded :: bool

text \<open>\<^verbatim>\<open>type Config struct\<close>.\<close>

record Config =
  includeKernelThreads :: bool
  includeRootAncestors :: bool
  rootPids :: "int list"

text \<open>
  \<^verbatim>\<open>type ProcTree struct\<close>. The Go map \<^verbatim>\<open>pidMap\<close> is an association list with distinct
  keys; a \<^verbatim>\<open>range\<close> over the map visits it in list order (Go leaves the order open; every
  list built in such a loop is sorted by pid afterwards). \<^verbatim>\<open>cfgRootProcs\<close> is \<open>None\<close> for
  the nil slice that \<^verbatim>\<open>lockedUpdate\<close> tests for.
\<close>

record ProcTree =
  cfg :: Config
  heap :: "Process list"
  pidMap :: "(int \<times> addr) list"
  absProcs :: "addr list"
  absRootProcs :: "addr list"
  cfgRootProcs :: "addr list option"
  includedProcs :: "addr list"
  includedRootProcs :: "addr list"

datatype error =
    EnumerationError string
  | RootPidNotFound int
  | RootedSubsetError string
  | KernelSubtreeError string

text \<open>A \<^verbatim>\<open>ProcessHandler\<close> may change the process objects and may return an error.\<close>

type_synonym ProcessHandler = "addr \<Rightarrow> Process list \<Rightarrow> string option \<times> Process list"

section \<open>Process objects\<close>

definition newProcess :: "gops_Process \<Rightarrow> Process" where
  "newProcess g =
     \<lparr>gopsProcess = g, isTombstone = False, parentProc = None, origParentProc = None,
      absChildProcs = [], includedChildProcs = [], isIncluded = True\<rparr>"

text \<open>An assignment through a pointer, \<^verbatim>\<open>proc.field = v\<close>.\<close>

definition store :: "addr \<Rightarrow> (Process \<Rightarrow> Process) \<Rightarrow> Process list \<Rightarrow> Process list" where
  "store a f hp = hp[a := f (hp ! a)]"

definition lockedPid :: "Process list \<Rightarrow> addr \<Rightarrow> int" where
  "lockedPid hp p = Pid (gopsProcess (hp ! p))"

definition lockedParent :: "Process list \<Rightarrow> addr \<Rightarrow> addr option" where
  "lockedParent hp p =
     (case parentProc (hp ! p) of
        None \<Rightarrow> None
      | Some pp \<Rightarrow> if pp = p \<or> \<not> isIncluded (hp ! pp) then None else Some pp)"

definition Children :: "Process list \<Rightarrow> addr \<Rightarrow> addr list" where
  "Children hp p = includedChildProcs (hp ! p)"

text \<open>
  \<^verbatim>\<open>lockedIsDescendantOf\<close> recurses along \<^verbatim>\<open>parentProc\<close> with no bound of its own; the
  value \<open>None\<close> stands for a recursion that never returns.
\<close>

partial_function (option) lockedIsDescendantOf ::
  "Process list \<Rightarrow> addr \<Rightarrow> addr option \<Rightarrow> bool option" where
  "lockedIsDescendantOf hp p ancestor =
     (case parentProc (hp ! p) of
        None \<Rightarrow> Some False
      | Some parent \<Rightarrow>
          (case ancestor of
             None \<Rightarrow> Some False
           | Some anc \<Rightarrow>
               if parent = anc then Some True else lockedIsDescendantOf hp parent ancestor))"

declare lockedIsDescendantOf.simps [code]

definition lockedIsAncestorOf :: "Process list \<Rightarrow> addr \<Rightarrow> addr option \<Rightarrow> bool option" where
  "lockedIsAncestorOf hp p descendant =
     (case descendant of None \<Rightarrow> Some False | Some d \<Rightarrow> lockedIsDescendantOf hp d (Some p))"

text \<open>The loop of \<^verbatim>\<open>lockedDepth\<close>, with its two variables.\<close>

partial_function (option) lockedDepth_loop :: "Process list \<Rightarrow> addr \<Rightarrow> int \<Rightarrow> int option" where
  "lockedDepth_loop hp proc result =
     (case parentProc (hp ! proc) of
        None \<Rightarrow> Some result
      | Some pp \<Rightarrow>
          if pp \<noteq> proc \<and> isIncluded (hp ! pp) then lockedDepth_loop hp pp (result + 1)
          else Some result)"

declare lockedDepth_loop.simps [code]

definition lockedDepth :: "Process list \<Rightarrow> addr \<Rightarrow> int option" where
  "lockedDepth hp p = lockedDepth_loop hp p 0"

text \<open>
  The recursive walks. The first argument bounds the depth of the recursion (the Go
  stack is finite); \<open>None\<close> is a walk that exceeds it, which is what a walk that never
  returns does for every bound.
\<close>

fun lockedWalkFullSubtree ::
    "nat \<Rightarrow> ProcessHandler \<Rightarrow> addr \<Rightarrow> Process list \<Rightarrow> (string option \<times> Process list) option"
  and lockedWalkFullSubtree_children ::
    "nat \<Rightarrow> ProcessHandler \<Rightarrow> addr list \<Rightarrow> Process list \<Rightarrow> (string option \<times> Process list) option"
where
  "lockedWalkFullSubtree 0 h p hp = None"
| "lockedWalkFullSubtree (Suc n) h p hp =
     (case h p hp of
        (Some err, hp1) \<Rightarrow> Some (Some err, hp1)
      | (None, hp1) \<Rightarrow> lockedWalkFullSubtree_children n h (absChildProcs (hp1 ! p)) hp1)"
| "lockedWalkFullSubtree_children n h [] hp = Some (None, hp)"
| "lockedWalkFullSubtree_children n h (child # rest) hp =
     (case lockedWalkFullSubtree n h child hp of
        None \<Rightarrow> None
      | Some (Some err, hp1) \<Rightarrow> Some (Some err, hp1)
      | Some (None, hp1) \<Rightarrow> lockedWalkFullSubtree_children n h rest hp1)"

fun lockedWalkSubtree ::
    "nat \<Rightarrow> ProcessHandler \<Rightarrow> addr \<Rightarrow> Process list \<Rightarrow> (string option \<times> Process list) option"
  and lockedWalkSubtree_children ::
    "nat \<Rightarrow> ProcessHandler \<Rightarrow> addr list \<Rightarrow> Process list \<Rightarrow> (string option \<times> Process list) option"
where
  "lockedWalkSubtree 0 h p hp = None"
| "lockedWalkSubtree (Suc n) h p hp =
     (if isIncluded (hp ! p) then
        (case h p hp of
           (Some err, hp1) \<Rightarrow> Some (Some err, hp1)
         | (None, hp1) \<Rightarrow> lockedWalkSubtree_children n h (includedChildProcs (hp1 ! p)) hp1)
      else Some (None, hp))"
| "lockedWalkSubtree_children n h [] hp = Some (None, hp)"
| "lockedWalkSubtree_children n h (child # rest) hp =
     (case lockedWalkSubtree n h child hp of
        None \<Rightarrow> None
      | Some (Some err, hp1) \<Rightarrow> Some (Some err, hp1)
      | Some (None, hp1) \<Rightarrow> lockedWalkSubtree_children n h rest hp1)"

fun lockedWalkFullAncestry ::
    "nat \<Rightarrow> ProcessHandler \<Rightarrow> addr \<Rightarrow> Process list \<Rightarrow> (string option \<times> Process list) option"
where
  "lockedWalkFullAncestry 0 h p hp = None"
| "lockedWalkFullAncestry (Suc n) h p hp =
     (case h p hp of
        (Some err, hp1) \<Rightarrow> Some (Some err, hp1)
      | (None, hp1) \<Rightarrow>
          (case parentProc (hp1 ! p) of
             None \<Rightarrow> Some (None, hp1)
           | Some parent \<Rightarrow>
               if parent \<noteq> p then lockedWalkFullAncestry n h parent hp1 else Some (None, hp1)))"

fun lockedFullWalkFromRoots ::
    "nat \<Rightarrow> ProcessHandler \<Rightarrow> addr list \<Rightarrow> Process list \<Rightarrow> (string option \<times> Process list) option"
where
  "lockedFullWalkFromRoots n h [] hp = Some (None, hp)"
| "lockedFullWalkFromRoots n h (proc # roots) hp =
     (case lockedWalkFullSubtree n h proc hp of
        None \<Rightarrow> None
      | Some (Some err, hp1) \<Rightarrow> Some (Some err, hp1)
      | Some (None, hp1) \<Rightarrow> lockedFullWalkFromRoots n h roots hp1)"

section \<open>The session and its update\<close>

definition lockedSortProcessesByPid :: "Process list \<Rightarrow> addr list \<Rightarrow> addr list" where
  "lockedSortProcessesByPid hp procs = sort_key (lockedPid hp) procs"

definition kthreadPid :: int where
  "kthreadPid = 2"

text \<open>Lines 95-100: every process of the pid map is tombstoned and loses its child lists.\<close>

definition lockedUpdate_tombstone :: "ProcTree \<Rightarrow> ProcTree" where
  "lockedUpdate_tombstone pt =
     pt\<lparr>heap :=
       fold (\<lambda>proc. store proc
               (\<lambda>p. p\<lparr>isTombstone := True, absChildProcs := [], includedChildProcs := []\<rparr>))
            (map snd (pidMap pt)) (heap pt)\<rparr>"

text \<open>Lines 102-119: one record of the enumeration.\<close>

definition lockedUpdate_record :: "bool \<Rightarrow> gops_Process \<Rightarrow> ProcTree \<Rightarrow> ProcTree" where
  "lockedUpdate_record fixedRoots gopsProc pt =
     (if includeKernelThreads (cfg pt) \<or> (Pid gopsProc \<noteq> 2 \<and> PPid gopsProc \<noteq> 2) then
        (case map_of (pidMap pt) (Pid gopsProc) of
           Some proc \<Rightarrow>
             pt\<lparr>heap := store proc (\<lambda>p. p\<lparr>gopsProcess := gopsProc, isTombstone := False\<rparr>) (heap pt)\<rparr>
         | None \<Rightarrow>
             pt\<lparr>heap := heap pt @ [(newProcess gopsProc)\<lparr>isIncluded := \<not> fixedRoots\<rparr>],
                pidMap := pidMap pt @ [(Pid gopsProc, length (heap pt))]\<rparr>)
      else pt)"

definition lockedUpdate_reconcile :: "bool \<Rightarrow> gops_Process list \<Rightarrow> ProcTree \<Rightarrow> ProcTree" where
  "lockedUpdate_reconcile fixedRoots gopsProcs pt = fold (lockedUpdate_record fixedRoots) gopsProcs pt"

text \<open>Lines 121-128.\<close>

definition lockedUpdate_prune :: "bool \<Rightarrow> ProcTree \<Rightarrow> ProcTree" where
  "lockedUpdate_prune pruneTombstones pt =
     (if pruneTombstones then
        pt\<lparr>pidMap := filter (\<lambda>(pid, proc). \<not> isTombstone (heap pt ! proc)) (pidMap pt)\<rparr>
      else pt)"

text \<open>Lines 130-142: the loop over the configured pids stops at the first missing one.\<close>

fun lockedUpdate_lookupRoots :: "(int \<times> addr) list \<Rightarrow> int list \<Rightarrow> addr list \<Rightarrow> int + addr list" where
  "lockedUpdate_lookupRoots pm [] found = Inr found"
| "lockedUpdate_lookupRoots pm (pid # pids) found =
     (case map_of pm pid of
        None \<Rightarrow> Inl pid
      | Some proc \<Rightarrow> lockedUpdate_lookupRoots pm pids (found @ [proc]))"

definition lockedUpdate_resolve :: "bool \<Rightarrow> ProcTree \<Rightarrow> error + ProcTree" where
  "lockedUpdate_resolve fixedRoots pt =
     (if fixedRoots \<and> cfgRootProcs pt = None then
        (case lockedUpdate_lookupRoots (pidMap pt) (rootPids (cfg pt)) [] of
           Inl pid \<Rightarrow> Inl (RootPidNotFound pid)
         | Inr found \<Rightarrow> Inr (pt\<lparr>cfgRootProcs := Some found\<rparr>))
      else Inr pt)"

text \<open>Lines 149-170: the body of the loop that links one process to its parent.\<close>

definition lockedUpdate_link ::
  "(int \<times> addr) list \<Rightarrow> addr \<Rightarrow> Process list \<times> addr list \<Rightarrow> Process list \<times> addr list" where
  "lockedUpdate_link pm proc s =
     (case s of (hp, roots) \<Rightarrow>
        (let ppid = PPid (gopsProcess (hp ! proc));
             pproc = (if ppid \<noteq> 0 then map_of pm ppid else None)
         in case pproc of
              Some pp \<Rightarrow>
                (let hp1 = store pp (\<lambda>p. p\<lparr>absChildProcs := absChildProcs p @ [proc]\<rparr>) hp;
                     hp2 = store proc (\<lambda>p. p\<lparr>parentProc := Some pp\<rparr>) hp1;
                     hp3 = store proc
                             (\<lambda>p. if origParentProc p = None then p\<lparr>origParentProc := Some pp\<rparr> else p) hp2
                 in (hp3, roots))
            | None \<Rightarrow> (hp, roots @ [proc])))"

definition lockedUpdate_sortAbsChildren :: "addr list \<Rightarrow> Process list \<Rightarrow> Process list" where
  "lockedUpdate_sortAbsChildren procs hp =
     fold (\<lambda>proc hp. store proc
             (\<lambda>p. p\<lparr>absChildProcs := lockedSortProcessesByPid hp (absChildProcs p)\<rparr>) hp)
          procs hp"

text \<open>Lines 144-177.\<close>

definition lockedUpdate_absolute :: "ProcTree \<Rightarrow> ProcTree" where
  "lockedUpdate_absolute pt =
     (case fold (lockedUpdate_link (pidMap pt)) (map snd (pidMap pt)) (heap pt, []) of
        (hp, roots) \<Rightarrow>
          (let procs = lockedSortProcessesByPid hp (map snd (pidMap pt)) in
           pt\<lparr>heap := lockedUpdate_sortAbsChildren procs hp,
              absProcs := procs,
              absRootProcs := lockedSortProcessesByPid hp roots\<rparr>))"

text \<open>The three handlers that \<^verbatim>\<open>lockedUpdate\<close> passes to the walks.\<close>

definition markIncluded :: ProcessHandler where
  "markIncluded proc hp =
     (None, store proc (\<lambda>p. if \<not> isIncluded p then p\<lparr>isIncluded := True\<rparr> else p) hp)"

definition markExcluded :: ProcessHandler where
  "markExcluded proc hp = (None, store proc (\<lambda>p. p\<lparr>isIncluded := False\<rparr>) hp)"

text \<open>Lines 193-203: the ancestry walks from the configured roots.\<close>

fun lockedUpdate_ancestors ::
    "nat \<Rightarrow> addr list \<Rightarrow> Process list \<Rightarrow> (string option \<times> Process list) option" where
  "lockedUpdate_ancestors n [] hp = Some (None, hp)"
| "lockedUpdate_ancestors n (root # roots) hp =
     (case lockedWalkFullAncestry n markIncluded root hp of
        None \<Rightarrow> None
      | Some (Some err, hp1) \<Rightarrow> Some (Some err, hp1)
      | Some (None, hp1) \<Rightarrow> lockedUpdate_ancestors n roots hp1)"

text \<open>Lines 179-210. A nil \<^verbatim>\<open>cfgRootProcs\<close> is ranged over as an empty slice.\<close>

definition lockedUpdate_include ::
  "nat \<Rightarrow> bool \<Rightarrow> ProcTree \<Rightarrow> (error option \<times> ProcTree) option" where
  "lockedUpdate_include n fixedRoots pt =
     (if fixedRoots then
        (let roots = (case cfgRootProcs pt of None \<Rightarrow> [] | Some rs \<Rightarrow> rs) in
         case lockedFullWalkFromRoots n markIncluded roots (heap pt) of
           None \<Rightarrow> None
         | Some (Some err, hp1) \<Rightarrow> Some (Some (RootedSubsetError err), pt\<lparr>heap := hp1\<rparr>)
         | Some (None, hp1) \<Rightarrow>
             if includeRootAncestors (cfg pt) then
               (case lockedUpdate_ancestors n roots hp1 of
                  None \<Rightarrow> None
                | Some (Some err, hp2) \<Rightarrow> Some (Some (RootedSubsetError err), pt\<lparr>heap := hp2\<rparr>)
                | Some (None, hp2) \<Rightarrow> Some (None, pt\<lparr>heap := hp2\<rparr>))
             else Some (None, pt\<lparr>heap := hp1\<rparr>))
      else
        Some (None, pt\<lparr>heap := fold (\<lambda>proc. store proc (\<lambda>p. p\<lparr>isIncluded := True\<rparr>))
                                      (absProcs pt) (heap pt)\<rparr>))"

text \<open>Lines 212-225.\<close>

definition lockedUpdate_kthreads :: "nat \<Rightarrow> ProcTree \<Rightarrow> (error option \<times> ProcTree) option" where
  "lockedUpdate_kthreads n pt =
     (if \<not> includeKernelThreads (cfg pt) then
        (case map_of (pidMap pt) kthreadPid of
           Some kProc \<Rightarrow>
             (case lockedWalkFullSubtree n markExcluded kProc (heap pt) of
                None \<Rightarrow> None
              | Some (Some err, hp1) \<Rightarrow> Some (Some (KernelSubtreeError err), pt\<lparr>heap := hp1\<rparr>)
              | Some (None, hp1) \<Rightarrow> Some (None, pt\<lparr>heap := hp1\<rparr>))
         | None \<Rightarrow> Some (None, pt))
      else Some (None, pt))"

text \<open>Lines 231-243: the body of the loop over \<^verbatim>\<open>absProcs\<close>.\<close>

definition lockedUpdate_collect ::
  "addr \<Rightarrow> Process list \<times> addr list \<times> addr list \<Rightarrow> Process list \<times> addr list \<times> addr list" where
  "lockedUpdate_collect proc s =
     (case s of (hp, incl, roots) \<Rightarrow>
        if isIncluded (hp ! proc) then
          (let pproc = parentProc (hp ! proc);
               hp1 = (case pproc of
                        None \<Rightarrow> hp
                      | Some pp \<Rightarrow>
                          store pp (\<lambda>p. p\<lparr>includedChildProcs := includedChildProcs p @ [proc]\<rparr>) hp);
               isRoot = (case pproc of
                           None \<Rightarrow> True
                         | Some pp \<Rightarrow> pp = proc \<or> \<not> isIncluded (hp1 ! pp))
           in (hp1, incl @ [proc], if isRoot then roots @ [proc] else roots))
        else (hp, incl, roots))"

definition lockedUpdate_sortIncludedChildren :: "addr list \<Rightarrow> Process list \<Rightarrow> Process list" where
  "lockedUpdate_sortIncludedChildren procs hp =
     fold (\<lambda>proc hp. store proc
             (\<lambda>p. p\<lparr>includedChildProcs := lockedSortProcessesByPid hp (includedChildProcs p)\<rparr>) hp)
          procs hp"

text \<open>Lines 227-250.\<close>

definition lockedUpdate_included :: "ProcTree \<Rightarrow> ProcTree" where
  "lockedUpdate_included pt =
     (case fold lockedUpdate_collect (absProcs pt) (heap pt, [], []) of
        (hp, incl, roots) \<Rightarrow>
          pt\<lparr>heap := lockedUpdate_sortIncludedChildren (absProcs pt) hp,
             includedProcs := lockedSortProcessesByPid hp incl,
             includedRootProcs := lockedSortProcessesByPid hp roots\<rparr>)"

text \<open>
  \<^verbatim>\<open>if err != nil { return err }\<close> after a step of the update: an error ends the update
  with the session as the step left it.
\<close>

definition thenStage ::
  "(error option \<times> ProcTree) option \<Rightarrow> (ProcTree \<Rightarrow> (error option \<times> ProcTree) option) \<Rightarrow>
   (error option \<times> ProcTree) option" where
  "thenStage r next =
     (case r of
        None \<Rightarrow> None
      | Some (Some err, pt) \<Rightarrow> Some (Some err, pt)
      | Some (None, pt) \<Rightarrow> next pt)"

text \<open>
  \<^verbatim>\<open>lockedUpdate\<close>. The result of \<^verbatim>\<open>gops.Processes()\<close> is the argument \<open>enum\<close>; the first
  argument bounds the recursion of the walks. The result is \<open>None\<close> when a walk does not
  return, and otherwise the returned error (or none) with the session as it is left.
\<close>

definition lockedUpdate ::
  "nat \<Rightarrow> bool \<Rightarrow> string + gops_Process list \<Rightarrow> ProcTree \<Rightarrow> (error option \<times> ProcTree) option" where
  "lockedUpdate n pruneTombstones enum pt =
     (let fixedRoots = (rootPids (cfg pt) \<noteq> []) in
      case enum of
        Inl err \<Rightarrow> Some (Some (EnumerationError err), pt)
      | Inr gopsProcs \<Rightarrow>
          (let pt1 = lockedUpdate_tombstone pt;
               pt2 = lockedUpdate_reconcile fixedRoots gopsProcs pt1;
               pt3 = lockedUpdate_prune pruneTombstones pt2
           in case lockedUpdate_resolve fixedRoots pt3 of
                Inl err \<Rightarrow> Some (Some err, pt3\<lparr>cfgRootProcs := None\<rparr>)
              | Inr pt4 \<Rightarrow>
                  thenStage (lockedUpdate_include n fixedRoots (lockedUpdate_absolute pt4))
                    (\<lambda>pt5. thenStage (lockedUpdate_kthreads n pt5)
                      (\<lambda>pt6. Some (None, lockedUpdate_included pt6)))))"

definition Update ::
  "nat \<Rightarrow> bool \<Rightarrow> string + gops_Process list \<Rightarrow> ProcTree \<Rightarrow> (error option \<times> ProcTree) option" where
  "Update n pruneTombstones enum pt = lockedUpdate n pruneTombstones enum pt"

text \<open>The session that \<^verbatim>\<open>New\<close> allocates before its first update.\<close>

definition emptySession :: "Config \<Rightarrow> ProcTree" where
  "emptySession c =
     \<lparr>cfg = c, heap = [], pidMap = [], absProcs = [], absRootProcs = [], cfgRootProcs = None,
      includedProcs = [], includedRootProcs = []\<rparr>"

text \<open>\<^verbatim>\<open>New\<close>: an error of the first update is returned and the session is dropped.\<close>

definition New :: "nat \<Rightarrow> Config \<Rightarrow> string + gops_Process list \<Rightarrow> (error + ProcTree) option" where
  "New n c enum =
     (case Update n False enum (emptySession c) of
        None \<Rightarrow> None
      | Some (Some err, pt) \<Rightarrow> Some (Inl err)
      | Some (None, pt) \<Rightarrow> Some (Inr pt))"

definition Processes :: "ProcTree \<Rightarrow> addr list" where
  "Processes pt = includedProcs pt"

definition Roots :: "ProcTree \<Rightarrow> addr list" where
  "Roots pt = includedRootProcs pt"

definition PidProcess :: "ProcTree \<Rightarrow> int \<Rightarrow> addr option" where
  "PidProcess pt pid = map_of (pidMap pt) pid"

section \<open>The session invariant and the stages of an update\<close>

text \<open>
  What holds of the pid map of every session that \<^verbatim>\<open>New\<close> returns and \<^verbatim>\<open>Update\<close>
  maintains: a pid has one entry, the entry points at an allocated process object, and
  the object's own pid is the key (lemmas \<open>wellFormed_emptySession\<close>, \<open>wellFormed_New\<close>
  and \<open>wellFormed_Update\<close> below).
\<close>

definition wellFormed :: "ProcTree \<Rightarrow> bool" where
  "wellFormed pt \<longleftrightarrow>
     distinct (map fst (pidMap pt)) \<and>
     (\<forall>(pid, proc) \<in> set (pidMap pt). proc < length (heap pt) \<and> lockedPid (heap pt) proc = pid)"

text \<open>The guard of line 106: the records that reconciliation does not skip.\<close>

definition admitted :: "Config \<Rightarrow> gops_Process \<Rightarrow> bool" where
  "admitted c g \<longleftrightarrow> includeKernelThreads c \<or> (Pid g \<noteq> 2 \<and> PPid g \<noteq> 2)"

text \<open>The records of an enumeration that reconciliation applies to a given pid, in order.\<close>

definition recordsFor :: "Config \<Rightarrow> int \<Rightarrow> gops_Process list \<Rightarrow> gops_Process list" where
  "recordsFor c pid gs = filter (\<lambda>g. admitted c g \<and> Pid g = pid) gs"

text \<open>The session at line 130 of \<^verbatim>\<open>lockedUpdate\<close>, after tombstoning, reconciliation and
  pruning, when the configured roots are looked up.\<close>

definition reconciled :: "bool \<Rightarrow> gops_Process list \<Rightarrow> ProcTree \<Rightarrow> ProcTree" where
  "reconciled pruneTombstones gopsProcs pt =
     lockedUpdate_prune pruneTombstones
       (lockedUpdate_reconcile (rootPids (cfg pt) \<noteq> []) gopsProcs (lockedUpdate_tombstone pt))"

text \<open>A change of the arena that allocates nothing and leaves one field of every
  process object as it was.\<close>

definition keeps :: "(Process \<Rightarrow> 'a) \<Rightarrow> Process list \<Rightarrow> Process list \<Rightarrow> bool" where
  "keeps f hp hp' \<longleftrightarrow> length hp' = length hp \<and> (\<forall>a. f (hp' ! a) = f (hp ! a))"

text \<open>No process object of the pid map has included children (what holds between the
  tombstone pass and the loop that builds the included lists).\<close>

definition childless :: "ProcTree \<Rightarrow> bool" where
  "childless pt \<longleftrightarrow> (\<forall>(pid, proc) \<in> set (pidMap pt). includedChildProcs (heap pt ! proc) = [])"

text \<open>No process object of the pid map carries a record with pid 2 or parent pid 2.\<close>

definition kernelFree :: "ProcTree \<Rightarrow> bool" where
  "kernelFree pt \<longleftrightarrow>
     (\<forall>(pid, proc) \<in> set (pidMap pt).
        Pid (gopsProcess (heap pt ! proc)) \<noteq> 2 \<and> PPid (gopsProcess (heap pt ! proc)) \<noteq> 2)"

text \<open>The sessions a caller of the package can hold: built by \<^verbatim>\<open>New\<close>, then updated any
  number of times, whatever the updates return.\<close>

inductive reachable :: "ProcTree \<Rightarrow> bool" where
  created: "New n c enum = Some (Inr pt) \<Longrightarrow> reachable pt"
| updated: "reachable pt \<Longrightarrow> Update n pruneTombstones enum pt = Some (r, pt') \<Longrightarrow> reachable pt'"

text \<open>Lines 152-160: the process object that the loop over the pid map finds for the
  parent pid of a process, if any.\<close>

definition parentOf :: "(int \<times> addr) list \<Rightarrow> Process list \<Rightarrow> addr \<Rightarrow> addr option" where
  "parentOf pm hp proc =
     (let ppid = PPid (gopsProcess (hp ! proc)) in if ppid \<noteq> 0 then map_of pm ppid else None)"

text \<open>The test of line 238 for a root of the included view.\<close>

definition isIncludedRoot :: "Process list \<Rightarrow> addr \<Rightarrow> bool" where
  "isIncludedRoot hp proc =
     (case parentProc (hp ! proc) of None \<Rightarrow> True | Some pp \<Rightarrow> pp = proc \<or> \<not> isIncluded (hp ! pp))"

text \<open>The edges that the full subtree walk follows, and the steps of the ancestry walk
  (which stops at a process that is its own parent).\<close>

definition childEdges :: "Process list \<Rightarrow> (addr \<times> addr) set" where
  "childEdges hp = {(p, c). c \<in> set (absChildProcs (hp ! p))}"

definition parentSteps :: "Process list \<Rightarrow> (addr \<times> addr) set" where
  "parentSteps hp = {(x, y). parentProc (hp ! x) = Some y \<and> y \<noteq> x}"

text \<open>A change of the inclusion flags that clears none, and one that sets flags only
  inside a given set of addresses.\<close>

definition marksKept :: "Process list \<Rightarrow> Process list \<Rightarrow> bool" where
  "marksKept hp hp' \<longleftrightarrow> (\<forall>x. isIncluded (hp ! x) \<longrightarrow> isIncluded (hp' ! x))"

definition marksWithin :: "addr set \<Rightarrow> Process list \<Rightarrow> Process list \<Rightarrow> bool" where
  "marksWithin S hp hp' \<longleftrightarrow> (\<forall>x. isIncluded (hp' ! x) \<longrightarrow> isIncluded (hp ! x) \<or> x \<in> S)"

text \<open>Process objects as reconciliation creates them, before any of them is linked.\<close>

definition fresh :: "bool \<Rightarrow> Process list \<Rightarrow> bool" where
  "fresh fr hp \<longleftrightarrow>
     (\<forall>a < length hp. parentProc (hp ! a) = None \<and> absChildProcs (hp ! a) = [] \<and>
                      isIncluded (hp ! a) = (\<not> fr))"

text \<open>A record of the enumeration \<open>gs\<close> is a descendant of the pid \<open>pid\<close>: the chain of parent
  pids that starts at the record leads, through records of \<open>gs\<close>, to \<open>pid\<close>. As at line 154,
  a parent pid 0 names no parent.\<close>

inductive descendsFrom :: "gops_Process list \<Rightarrow> int \<Rightarrow> gops_Process \<Rightarrow> bool"
  for gs :: "gops_Process list" and pid :: int where
  child: "g \<in> set gs \<Longrightarrow> PPid g = pid \<Longrightarrow> descendsFrom gs pid g"
| deeper: "g \<in> set gs \<Longrightarrow> h \<in> set gs \<Longrightarrow> PPid g \<noteq> 0 \<Longrightarrow> PPid g = Pid h \<Longrightarrow>
           descendsFrom gs pid h \<Longrightarrow> descendsFrom gs pid g"

section \<open>Example inputs\<close>

definition defaultConfig :: Config where
  "defaultConfig = \<lparr>includeKernelThreads = False, includeRootAncestors = False, rootPids = []\<rparr>"

definition gopsRecord :: "int \<Rightarrow> int \<Rightarrow> gops_Process" where
  "gopsRecord pid ppid = \<lparr>Pid = pid, PPid = ppid, Executable = ''x''\<rparr>"

text \<open>The session that \<^verbatim>\<open>New\<close> builds from the single record (1, 0) with no options.\<close>

definition initSession :: ProcTree where
  "initSession =
     \<lparr>cfg = defaultConfig,
      heap = [\<lparr>gopsProcess = gopsRecord 1 0, isTombstone = False, parentProc = None,
               origParentProc = None, absChildProcs = [], includedChildProcs = [],
               isIncluded = True\<rparr>],
      pidMap = [(1, 0)], absProcs = [0], absRootProcs = [0], cfgRootProcs = None,
      includedProcs = [0], includedRootProcs = [0]\<rparr>"

text \<open>An enumeration in which process 5 names itself as its parent, and the process
  objects that \<^verbatim>\<open>New\<close> builds from it.\<close>

definition selfParentEnum :: "gops_Process list" where
  "selfParentEnum = [gopsRecord 5 5, gopsRecord 6 0]"

definition selfParentHeap :: "Process list" where
  "selfParentHeap =
     [\<lparr>gopsProcess = gopsRecord 5 5, isTombstone = False, parentProc = Some 0,
       origParentProc = Some 0, absChildProcs = [0], includedChildProcs = [0],
       isIncluded = True\<rparr>,
      \<lparr>gopsProcess = gopsRecord 6 0, isTombstone = False, parentProc = None,
       origParentProc = None, absChildProcs = [], includedChildProcs = [],
       isIncluded = True\<rparr>]"

definition selfParentSession :: ProcTree where
  "selfParentSession =
     \<lparr>cfg = defaultConfig, heap = selfParentHeap, pidMap = [(5, 0), (6, 1)],
      absProcs = [0, 1], absRootProcs = [1], cfgRootProcs = None,
      includedProcs = [0, 1], includedRootProcs = [0, 1]\<rparr>"

text \<open>A handler that does nothing and reports no error.\<close>

definition noopHandler :: ProcessHandler where
  "noopHandler proc hp = (None, hp)"

text \<open>A process object as \<^verbatim>\<open>lockedUpdate\<close> leaves it when it is alive, included, and all
  its children are included.\<close>

definition liveProcess :: "gops_Process \<Rightarrow> addr option \<Rightarrow> addr list \<Rightarrow> Process" where
  "liveProcess g parent children =
     \<lparr>gopsProcess = g, isTombstone = False, parentProc = parent, origParentProc = parent,
      absChildProcs = children, includedChildProcs = children, isIncluded = True\<rparr>"

text \<open>A configuration with a root pid that no enumeration below contains.\<close>

definition missingRootConfig :: Config where
  "missingRootConfig =
     \<lparr>includeKernelThreads = False, includeRootAncestors = False, rootPids = [9999]\<rparr>"

text \<open>Pid 7 is a child of pid 1 in a first enumeration (session \<open>recycleSessionA\<close>); in a
  second one pid 7 is a child of pid 2, and the update prunes (session \<open>recycleSessionB\<close>).\<close>

definition recycleSessionA :: ProcTree where
  "recycleSessionA =
     \<lparr>cfg = defaultConfig,
      heap = [liveProcess (gopsRecord 1 0) None [1], liveProcess (gopsRecord 7 1) (Some 0) []],
      pidMap = [(1, 0), (7, 1)], absProcs = [0, 1], absRootProcs = [0], cfgRootProcs = None,
      includedProcs = [0, 1], includedRootProcs = [0]\<rparr>"

definition recycleSessionB :: ProcTree where
  "recycleSessionB =
     \<lparr>cfg = defaultConfig,
      heap = [liveProcess (gopsRecord 1 0) None [],
              (liveProcess (gopsRecord 7 1) (Some 0) [])\<lparr>isTombstone := True\<rparr>],
      pidMap = [(1, 0)], absProcs = [0], absRootProcs = [0], cfgRootProcs = None,
      includedProcs = [0], includedRootProcs = [0]\<rparr>"

text \<open>The chain 1, 100, 200 (session \<open>tombSessionA\<close>); then only pid 1 is enumerated,
  without pruning (\<open>tombSessionB\<close>) and after that with pruning (\<open>tombSessionC\<close>).\<close>

definition tombSessionA :: ProcTree where
  "tombSessionA =
     \<lparr>cfg = defaultConfig,
      heap = [liveProcess (gopsRecord 1 0) None [1], liveProcess (gopsRecord 100 1) (Some 0) [2],
              liveProcess (gopsRecord 200 100) (Some 1) []],
      pidMap = [(1, 0), (100, 1), (200, 2)], absProcs = [0, 1, 2], absRootProcs = [0],
      cfgRootProcs = None, includedProcs = [0, 1, 2], includedRootProcs = [0]\<rparr>"

definition tombSessionB :: ProcTree where
  "tombSessionB =
     \<lparr>cfg = defaultConfig,
      heap = [liveProcess (gopsRecord 1 0) None [1],
              (liveProcess (gopsRecord 100 1) (Some 0) [2])\<lparr>isTombstone := True\<rparr>,
              (liveProcess (gopsRecord 200 100) (Some 1) [])\<lparr>isTombstone := True\<rparr>],
      pidMap = [(1, 0), (100, 1), (200, 2)], absProcs = [0, 1, 2], absRootProcs = [0],
      cfgRootProcs = None, includedProcs = [0, 1, 2], includedRootProcs = [0]\<rparr>"

definition tombSessionC :: ProcTree where
  "tombSessionC =
     \<lparr>cfg = defaultConfig,
      heap = [liveProcess (gopsRecord 1 0) None [],
              (liveProcess (gopsRecord 100 1) (Some 0) [])\<lparr>isTombstone := True\<rparr>,
              (liveProcess (gopsRecord 200 100) (Some 1) [])\<lparr>isTombstone := True\<rparr>],
      pidMap = [(1, 0)], absProcs = [0], absRootProcs = [0],
      cfgRootProcs = None, includedProcs = [0], includedRootProcs = [0]\<rparr>"

text \<open>An enumeration that is not in pid order, and the session \<^verbatim>\<open>New\<close> builds from it.\<close>

definition shuffledEnum :: "gops_Process list" where
  "shuffledEnum = [gopsRecord 300 1, gopsRecord 1 0, gopsRecord 200 1, gopsRecord 100 1]"

definition shuffledSession :: ProcTree where
  "shuffledSession =
     \<lparr>cfg = defaultConfig,
      heap = [liveProcess (gopsRecord 300 1) (Some 1) [], liveProcess (gopsRecord 1 0) None [3, 2, 0],
              liveProcess (gopsRecord 200 1) (Some 1) [], liveProcess (gopsRecord 100 1) (Some 1) []],
      pidMap = [(300, 0), (1, 1), (200, 2), (100, 3)], absProcs = [1, 3, 2, 0],
      absRootProcs = [1], cfgRootProcs = None, includedProcs = [1, 3, 2, 0],
      includedRootProcs = [1]\<rparr>"

text \<open>Pid 2 is a child of pid 1, pid 30 a child of pid 2 and pid 50 a child of pid 30;
  pids 1 and 50 are configured as roots. \<open>kthreadSession\<close> is what \<^verbatim>\<open>New\<close> builds.\<close>

definition twoRootsConfig :: Config where
  "twoRootsConfig =
     \<lparr>includeKernelThreads = False, includeRootAncestors = False, rootPids = [1, 50]\<rparr>"

definition kthreadEnum :: "gops_Process list" where
  "kthreadEnum = [gopsRecord 1 0, gopsRecord 2 1, gopsRecord 30 2, gopsRecord 50 30]"

definition kthreadSession :: ProcTree where
  "kthreadSession =
     \<lparr>cfg = twoRootsConfig,
      heap = [liveProcess (gopsRecord 1 0) None [], liveProcess (gopsRecord 50 30) None []],
      pidMap = [(1, 0), (50, 1)], absProcs = [0, 1], absRootProcs = [0, 1],
      cfgRootProcs = Some [0, 1], includedProcs = [0, 1], includedRootProcs = [0, 1]\<rparr>"

text \<open>Pid 30 is a kernel thread (a child of pid 2) and pid 50 is a child of pid 30;
  \<open>grandchildSession\<close> is what \<^verbatim>\<open>New\<close> builds with no options.\<close>

definition grandchildEnum :: "gops_Process list" where
  "grandchildEnum = [gopsRecord 1 0, gopsRecord 2 0, gopsRecord 30 2, gopsRecord 50 30]"

definition grandchildSession :: ProcTree where
  "grandchildSession =
     \<lparr>cfg = defaultConfig,
      heap = [liveProcess (gopsRecord 1 0) None [], liveProcess (gopsRecord 50 30) None []],
      pidMap = [(1, 0), (50, 1)], absProcs = [0, 1], absRootProcs = [0, 1],
      cfgRootProcs = None, includedProcs = [0, 1], includedRootProcs = [0, 1]\<rparr>"

text \<open>Pid 50 is the configured root, with or without its ancestors.\<close>

definition ancestorsConfig :: "bool \<Rightarrow> Config" where
  "ancestorsConfig anc =
     \<lparr>includeKernelThreads = False, includeRootAncestors = anc, rootPids = [50]\<rparr>"

text \<open>The ancestors of pid 50 are pid 30 and the parentless pid 1; pid 60 is its child.
  \<open>chainSessionPlain\<close> is built without the ancestors, \<open>chainSessionFull\<close> with them.\<close>

definition chainEnum :: "gops_Process list" where
  "chainEnum = [gopsRecord 1 0, gopsRecord 30 1, gopsRecord 50 30, gopsRecord 60 50]"

definition chainSessionPlain :: ProcTree where
  "chainSessionPlain =
     \<lparr>cfg = ancestorsConfig False,
      heap = [(liveProcess (gopsRecord 1 0) None [1])\<lparr>includedChildProcs := [], isIncluded := False\<rparr>,
              (liveProcess (gopsRecord 30 1) (Some 0) [2])\<lparr>isIncluded := False\<rparr>,
              liveProcess (gopsRecord 50 30) (Some 1) [3],
              liveProcess (gopsRecord 60 50) (Some 2) []],
      pidMap = [(1, 0), (30, 1), (50, 2), (60, 3)], absProcs = [0, 1, 2, 3], absRootProcs = [0],
      cfgRootProcs = Some [2], includedProcs = [2, 3], includedRootProcs = [2]\<rparr>"

definition chainSessionFull :: ProcTree where
  "chainSessionFull =
     \<lparr>cfg = ancestorsConfig True,
      heap = [liveProcess (gopsRecord 1 0) None [1], liveProcess (gopsRecord 30 1) (Some 0) [2],
              liveProcess (gopsRecord 50 30) (Some 1) [3],
              liveProcess (gopsRecord 60 50) (Some 2) []],
      pidMap = [(1, 0), (30, 1), (50, 2), (60, 3)], absProcs = [0, 1, 2, 3], absRootProcs = [0],
      cfgRootProcs = Some [2], includedProcs = [0, 1, 2, 3], includedRootProcs = [0]\<rparr>"

text \<open>The ancestors of pid 50 are the kernel thread 30 and pid 2, which is parentless.\<close>

definition kernelChainEnum :: "gops_Process list" where
  "kernelChainEnum = [gopsRecord 2 0, gopsRecord 30 2, gopsRecord 50 30]"

definition kernelChainSession :: ProcTree where
  "kernelChainSession =
     \<lparr>cfg = ancestorsConfig True,
      heap = [liveProcess (gopsRecord 50 30) None []],
      pidMap = [(50, 0)], absProcs = [0], absRootProcs = [0],
      cfgRootProcs = Some [0], includedProcs = [0], includedRootProcs = [0]\<rparr>"

text \<open>Pid 50 and its parent pid 30 are both configured roots, without ancestors.\<close>

definition nestedRootsConfig :: Config where
  "nestedRootsConfig =
     \<lparr>includeKernelThreads = False, includeRootAncestors = False, rootPids = [30, 50]\<rparr>"

definition nestedRootsSession :: ProcTree where
  "nestedRootsSession =
     \<lparr>cfg = nestedRootsConfig,
      heap = [(liveProcess (gopsRecord 1 0) None [1])\<lparr>isIncluded := False\<rparr>,
              liveProcess (gopsRecord 30 1) (Some 0) [2],
              liveProcess (gopsRecord 50 30) (Some 1) [3],
              liveProcess (gopsRecord 60 50) (Some 2) []],
      pidMap = [(1, 0), (30, 1), (50, 2), (60, 3)], absProcs = [0, 1, 2, 3], absRootProcs = [0],
      cfgRootProcs = Some [1, 2], includedProcs = [1, 2, 3], includedRootProcs = [1]\<rparr>"

text \<open>Pid 30 is an ordinary child of pid 1 when the session is built
  (\<open>parentKnownSessionA\<close>); the next enumeration, \<open>grandchildEnum\<close>, lists it as a child of
  pid 2 (\<open>parentKnownSessionB\<close>, without pruning). \<open>twiceListedEnum\<close> lists pid 30 twice,
  as a child of pid 2 and as a child of pid 1.\<close>

definition parentKnownEnum :: "gops_Process list" where
  "parentKnownEnum = [gopsRecord 1 0, gopsRecord 30 1, gopsRecord 50 30]"

definition parentKnownSessionA :: ProcTree where
  "parentKnownSessionA =
     \<lparr>cfg = defaultConfig,
      heap = [liveProcess (gopsRecord 1 0) None [1], liveProcess (gopsRecord 30 1) (Some 0) [2],
              liveProcess (gopsRecord 50 30) (Some 1) []],
      pidMap = [(1, 0), (30, 1), (50, 2)], absProcs = [0, 1, 2], absRootProcs = [0],
      cfgRootProcs = None, includedProcs = [0, 1, 2], includedRootProcs = [0]\<rparr>"

definition parentKnownSessionB :: ProcTree where
  "parentKnownSessionB =
     \<lparr>cfg = defaultConfig,
      heap = [liveProcess (gopsRecord 1 0) None [1],
              (liveProcess (gopsRecord 30 1) (Some 0) [2])\<lparr>isTombstone := True\<rparr>,
              liveProcess (gopsRecord 50 30) (Some 1) []],
      pidMap = [(1, 0), (30, 1), (50, 2)], absProcs = [0, 1, 2], absRootProcs = [0],
      cfgRootProcs = None, includedProcs = [0, 1, 2], includedRootProcs = [0]\<rparr>"

definition twiceListedEnum :: "gops_Process list" where
  "twiceListedEnum =
     [gopsRecord 1 0, gopsRecord 2 0, gopsRecord 30 2, gopsRecord 30 1, gopsRecord 50 30]"

text \<open>After the chain 1, 100, 200 (\<open>tombSessionA\<close>) pid 100 is gone and pid 200 still
  names it as its parent; the session is updated twice with pruning (\<open>orphanSessionB\<close>,
  then \<open>orphanSessionC\<close>).\<close>

definition orphanEnum :: "gops_Process list" where
  "orphanEnum = [gopsRecord 1 0, gopsRecord 200 100]"

definition orphanSessionB :: ProcTree where
  "orphanSessionB =
     \<lparr>cfg = defaultConfig,
      heap = [liveProcess (gopsRecord 1 0) None [],
              (liveProcess (gopsRecord 100 1) (Some 0) [])
                \<lparr>isTombstone := True, includedChildProcs := [2]\<rparr>,
              liveProcess (gopsRecord 200 100) (Some 1) []],
      pidMap = [(1, 0), (200, 2)], absProcs = [0, 2], absRootProcs = [0, 2],
      cfgRootProcs = None, includedProcs = [0, 2], includedRootProcs = [0]\<rparr>"

definition orphanSessionC :: ProcTree where
  "orphanSessionC =
     \<lparr>cfg = defaultConfig,
      heap = [liveProcess (gopsRecord 1 0) None [],
              (liveProcess (gopsRecord 100 1) (Some 0) [])
                \<lparr>isTombstone := True, includedChildProcs := [2, 2]\<rparr>,
              liveProcess (gopsRecord 200 100) (Some 1) []],
      pidMap = [(1, 0), (200, 2)], absProcs = [0, 2], absRootProcs = [0, 2],
      cfgRootProcs = None, includedProcs = [0, 2], includedRootProcs = [0]\<rparr>"

text \<open>After the chain 1, 100, 200 (\<open>tombSessionA\<close>) pid 100 is gone and pid 200 is listed
  as a child of pid 1; the session is updated without pruning.\<close>

definition reparentedEnum :: "gops_Process list" where
  "reparentedEnum = [gopsRecord 1 0, gopsRecord 200 1]"

definition reparentedSession :: ProcTree where
  "reparentedSession =
     \<lparr>cfg = defaultConfig,
      heap = [liveProcess (gopsRecord 1 0) None [1, 2],
              (liveProcess (gopsRecord 100 1) (Some 0) [])\<lparr>isTombstone := True\<rparr>,
              (liveProcess (gopsRecord 200 1) (Some 0) [])\<lparr>origParentProc := Some 1\<rparr>],
      pidMap = [(1, 0), (100, 1), (200, 2)], absProcs = [0, 1, 2], absRootProcs = [0],
      cfgRootProcs = None, includedProcs = [0, 1, 2], includedRootProcs = [0]\<rparr>"

text \<open>Pid 1 is the only configured root.\<close>

definition oneRootConfig :: Config where
  "oneRootConfig =
     \<lparr>includeKernelThreads = False, includeRootAncestors = False, rootPids = [1]\<rparr>"

text \<open>Pid 2 and pid 7 are children of pid 1; below pid 2 are the kernel thread 30, its
  child 50 and the child 60 of pid 50. \<open>kthreadTreeSession\<close> is what \<^verbatim>\<open>New\<close> builds when pid 1
  is the configured root.\<close>

definition kthreadTreeEnum :: "gops_Process list" where
  "kthreadTreeEnum =
     [gopsRecord 1 0, gopsRecord 2 1, gopsRecord 30 2, gopsRecord 50 30, gopsRecord 60 50,
      gopsRecord 7 1]"

definition kthreadTreeSession :: ProcTree where
  "kthreadTreeSession =
     \<lparr>cfg = oneRootConfig,
      heap = [liveProcess (gopsRecord 1 0) None [3],
              (liveProcess (gopsRecord 50 30) None [2])\<lparr>includedChildProcs := [], isIncluded := False\<rparr>,
              (liveProcess (gopsRecord 60 50) (Some 1) [])\<lparr>isIncluded := False\<rparr>,
              liveProcess (gopsRecord 7 1) (Some 0) []],
      pidMap = [(1, 0), (50, 1), (60, 2), (7, 3)], absProcs = [0, 3, 1, 2], absRootProcs = [0, 1],
      cfgRootProcs = Some [0], includedProcs = [0, 3], includedRootProcs = [0]\<rparr>"

text \<open>Pid 50 is a child of the configured root 1 when the session is built
  (\<open>stickySessionA\<close>); the next enumeration, \<open>kthreadEnum\<close>, lists it as a child of the
  kernel thread 30 (\<open>stickySessionB\<close>). \<open>twiceListedTreeEnum\<close> lists pid 50 twice, as a
  child of the kernel thread 30 and as a child of pid 1.\<close>

definition stickySessionA :: ProcTree where
  "stickySessionA =
     \<lparr>cfg = oneRootConfig,
      heap = [liveProcess (gopsRecord 1 0) None [1], liveProcess (gopsRecord 50 1) (Some 0) []],
      pidMap = [(1, 0), (50, 1)], absProcs = [0, 1], absRootProcs = [0],
      cfgRootProcs = Some [0], includedProcs = [0, 1], includedRootProcs = [0]\<rparr>"

definition stickySessionB :: ProcTree where
  "stickySessionB =
     \<lparr>cfg = oneRootConfig,
      heap = [(liveProcess (gopsRecord 1 0) None [])\<lparr>includedChildProcs := [1]\<rparr>,
              liveProcess (gopsRecord 50 30) (Some 0) []],
      pidMap = [(1, 0), (50, 1)], absProcs = [0, 1], absRootProcs = [0, 1],
      cfgRootProcs = Some [0], includedProcs = [0, 1], includedRootProcs = [0]\<rparr>"

definition twiceListedTreeEnum :: "gops_Process list" where
  "twiceListedTreeEnum =
     [gopsRecord 1 0, gopsRecord 2 1, gopsRecord 30 2, gopsRecord 50 30, gopsRecord 50 1]"

section \<open>Stores into the arena\<close>

lemma length_store [simp]: "length (store a f hp) = length hp"
  by (simp add: store_def)

lemma nth_store: "store a f hp ! b = (if b = a \<and> a < length hp then f (hp ! a) else hp ! b)"
  by (cases "a < length hp") (auto simp: store_def list_update_beyond)

lemma length_fold_store [simp]: "length (fold (\<lambda>a. store a f) as hp) = length hp"
  by (induction as arbitrary: hp) auto

lemma nth_fold_store_idem:
  assumes "\<And>p. f (f p) = f p"
  shows "fold (\<lambda>a. store a f) as hp ! b =
           (if b \<in> set as \<and> b < length hp then f (hp ! b) else hp ! b)"
  using assms by (induction as arbitrary: hp) (auto simp: nth_store)

lemma fold_store_idem:
  assumes "\<And>p. f (f p) = f p"
  shows "fold (\<lambda>a. store a f) as (fold (\<lambda>a. store a f) as hp) = fold (\<lambda>a. store a f) as hp"
  by (rule nth_equalityI) (simp_all add: nth_fold_store_idem assms)

lemma lockedUpdate_tombstone_idem:
  "lockedUpdate_tombstone (lockedUpdate_tombstone pt) = lockedUpdate_tombstone pt"
  by (simp add: lockedUpdate_tombstone_def fold_store_idem)

lemma cfg_lockedUpdate_tombstone [simp]: "cfg (lockedUpdate_tombstone pt) = cfg pt"
  by (simp add: lockedUpdate_tombstone_def)

section \<open>Frames\<close>

lemma keeps_refl [simp]: "keeps f hp hp"
  by (simp add: keeps_def)

lemma keeps_trans: "keeps f hp hp1 \<Longrightarrow> keeps f hp1 hp2 \<Longrightarrow> keeps f hp hp2"
  by (simp add: keeps_def)

lemma keepsD: "keeps f hp hp' \<Longrightarrow> f (hp' ! a) = f (hp ! a)"
  and keeps_length: "keeps f hp hp' \<Longrightarrow> length hp' = length hp"
  by (simp_all add: keeps_def)

lemma keeps_lockedPid: "keeps gopsProcess hp hp' \<Longrightarrow> lockedPid hp' = lockedPid hp"
  by (auto simp: keeps_def lockedPid_def)

lemma keeps_store:
  assumes "\<And>p. f (g p) = f p"
  shows "keeps f hp (store a g hp)"
  by (simp add: keeps_def nth_store assms)

lemma keeps_fold_store:
  assumes "\<And>a hp p. f (g a hp p) = f p"
  shows "keeps f hp (fold (\<lambda>a hp. store a (g a hp) hp) as hp)"
proof (induction as arbitrary: hp)
  case Nil
  show ?case by simp
next
  case (Cons a as)
  have "keeps f hp (store a (g a hp) hp)" by (rule keeps_store) (rule assms)
  then show ?case using Cons[of "store a (g a hp) hp"] by (auto intro: keeps_trans)
qed

subsection \<open>The session invariant\<close>

lemma wellFormedI:
  assumes "distinct (map fst (pidMap pt))"
    and "\<And>pid proc. (pid, proc) \<in> set (pidMap pt) \<Longrightarrow>
           proc < length (heap pt) \<and> lockedPid (heap pt) proc = pid"
  shows "wellFormed pt"
  using assms by (auto simp: wellFormed_def)

lemma wellFormedD:
  assumes "wellFormed pt" and "(pid, proc) \<in> set (pidMap pt)"
  shows "proc < length (heap pt)" and "lockedPid (heap pt) proc = pid"
  using assms by (auto simp: wellFormed_def)

lemma wellFormed_distinct: "wellFormed pt \<Longrightarrow> distinct (map fst (pidMap pt))"
  by (simp add: wellFormed_def)

lemma wellFormed_map_of:
  assumes "wellFormed pt" and "map_of (pidMap pt) pid = Some proc"
  shows "proc < length (heap pt)" and "lockedPid (heap pt) proc = pid"
  using assms by (auto dest!: map_of_SomeD simp: wellFormed_def)

lemma wellFormed_keeps:
  assumes "wellFormed pt" and "pidMap pt' = pidMap pt" and "keeps gopsProcess (heap pt) (heap pt')"
  shows "wellFormed pt'"
  using assms by (auto simp: wellFormed_def keeps_lockedPid keeps_length)

lemma wellFormed_emptySession: "wellFormed (emptySession c)"
  by (simp add: wellFormed_def emptySession_def)

subsection \<open>The tombstone pass\<close>

lemma pidMap_tombstone [simp]: "pidMap (lockedUpdate_tombstone pt) = pidMap pt"
  and cfgRootProcs_tombstone [simp]: "cfgRootProcs (lockedUpdate_tombstone pt) = cfgRootProcs pt"
  and length_heap_tombstone [simp]: "length (heap (lockedUpdate_tombstone pt)) = length (heap pt)"
  by (simp_all add: lockedUpdate_tombstone_def)

lemma nth_heap_tombstone:
  "heap (lockedUpdate_tombstone pt) ! a =
     (if a \<in> snd ` set (pidMap pt) \<and> a < length (heap pt)
      then (heap pt ! a)\<lparr>isTombstone := True, absChildProcs := [], includedChildProcs := []\<rparr>
      else heap pt ! a)"
  by (simp add: lockedUpdate_tombstone_def nth_fold_store_idem)

lemma wellFormed_tombstone: "wellFormed pt \<Longrightarrow> wellFormed (lockedUpdate_tombstone pt)"
  by (rule wellFormed_keeps[where pt = pt]) (simp_all add: keeps_def nth_heap_tombstone)

subsection \<open>Reconciliation\<close>

lemma cfg_record [simp]: "cfg (lockedUpdate_record fr g pt) = cfg pt"
  and cfgRootProcs_record [simp]: "cfgRootProcs (lockedUpdate_record fr g pt) = cfgRootProcs pt"
  by (simp_all add: lockedUpdate_record_def split: option.splits)

lemma lockedUpdate_record_cases [case_names skip refresh add]:
  obtains
    (skip) "\<not> admitted (cfg pt) g" "lockedUpdate_record fr g pt = pt"
  | (refresh) a where "admitted (cfg pt) g" "map_of (pidMap pt) (Pid g) = Some a"
      "lockedUpdate_record fr g pt =
         pt\<lparr>heap := store a (\<lambda>p. p\<lparr>gopsProcess := g, isTombstone := False\<rparr>) (heap pt)\<rparr>"
  | (add) "admitted (cfg pt) g" "map_of (pidMap pt) (Pid g) = None"
      "lockedUpdate_record fr g pt =
         pt\<lparr>heap := heap pt @ [(newProcess g)\<lparr>isIncluded := \<not> fr\<rparr>],
            pidMap := pidMap pt @ [(Pid g, length (heap pt))]\<rparr>"
  by (cases "admitted (cfg pt) g"; cases "map_of (pidMap pt) (Pid g)")
     (auto simp: lockedUpdate_record_def admitted_def)

lemma wellFormed_record:
  assumes "wellFormed pt"
  shows "wellFormed (lockedUpdate_record fr g pt)"
proof (cases rule: lockedUpdate_record_cases[where pt = pt and g = g and fr = fr])
  case skip
  then show ?thesis using assms by simp
next
  case (refresh a)
  note wf = wellFormed_map_of[OF assms refresh(2)]
  show ?thesis
  proof (rule wellFormedI)
    show "distinct (map fst (pidMap (lockedUpdate_record fr g pt)))"
      using assms by (simp add: refresh(3) wellFormed_def)
  next
    fix pid proc assume "(pid, proc) \<in> set (pidMap (lockedUpdate_record fr g pt))"
    then have mem: "(pid, proc) \<in> set (pidMap pt)" by (simp add: refresh(3))
    have "proc = a \<Longrightarrow> pid = Pid g"
      using wellFormedD(2)[OF assms mem] wf(2) by simp
    then show "proc < length (heap (lockedUpdate_record fr g pt)) \<and>
               lockedPid (heap (lockedUpdate_record fr g pt)) proc = pid"
      using wellFormedD[OF assms mem] by (auto simp: refresh(3) lockedPid_def nth_store)
  qed
next
  case add
  have fresh: "Pid g \<notin> fst ` set (pidMap pt)"
    using add(2) by (simp add: map_of_eq_None_iff)
  show ?thesis
  proof (rule wellFormedI)
    show "distinct (map fst (pidMap (lockedUpdate_record fr g pt)))"
      using assms fresh by (simp add: add(3) wellFormed_def)
  next
    fix pid proc assume "(pid, proc) \<in> set (pidMap (lockedUpdate_record fr g pt))"
    then consider "(pid, proc) \<in> set (pidMap pt)" | "pid = Pid g" "proc = length (heap pt)"
      by (auto simp: add(3))
    then show "proc < length (heap (lockedUpdate_record fr g pt)) \<and>
               lockedPid (heap (lockedUpdate_record fr g pt)) proc = pid"
    proof cases
      case 1
      then show ?thesis using wellFormedD[OF assms 1]
        by (simp add: add(3) lockedPid_def nth_append)
    next
      case 2
      then show ?thesis by (simp add: add(3) lockedPid_def newProcess_def)
    qed
  qed
qed

lemma lockedUpdate_reconcile_induct:
  assumes "I pt" and "\<And>g pt. I pt \<Longrightarrow> I (lockedUpdate_record fr g pt)"
  shows "I (lockedUpdate_reconcile fr gs pt)"
  unfolding lockedUpdate_reconcile_def using assms(1)
  by (induction gs arbitrary: pt) (simp_all add: assms(2))

lemma lockedUpdate_reconcile_snoc:
  "lockedUpdate_reconcile fr (gs @ [g]) pt =
     lockedUpdate_record fr g (lockedUpdate_reconcile fr gs pt)"
  by (simp add: lockedUpdate_reconcile_def)

lemma lockedUpdate_reconcile_Nil [simp]: "lockedUpdate_reconcile fr [] pt = pt"
  by (simp add: lockedUpdate_reconcile_def)

lemma wellFormed_reconcile: "wellFormed pt \<Longrightarrow> wellFormed (lockedUpdate_reconcile fr gs pt)"
  by (rule lockedUpdate_reconcile_induct) (simp_all add: wellFormed_record)

lemma cfg_reconcile [simp]: "cfg (lockedUpdate_reconcile fr gs pt) = cfg pt"
  by (rule lockedUpdate_reconcile_induct[where I = "\<lambda>pt'. cfg pt' = cfg pt"]) simp_all

lemma cfgRootProcs_reconcile [simp]:
  "cfgRootProcs (lockedUpdate_reconcile fr gs pt) = cfgRootProcs pt"
  by (rule lockedUpdate_reconcile_induct[where I = "\<lambda>pt'. cfgRootProcs pt' = cfgRootProcs pt"])
     simp_all

lemma map_of_record_keeps:
  "map_of (pidMap pt) pid = Some a \<Longrightarrow> map_of (pidMap (lockedUpdate_record fr g pt)) pid = Some a"
  by (cases rule: lockedUpdate_record_cases[where pt = pt and g = g and fr = fr])
     (auto simp: map_add_Some_iff)

lemma map_of_reconcile_keeps:
  "map_of (pidMap pt) pid = Some a \<Longrightarrow>
   map_of (pidMap (lockedUpdate_reconcile fr gs pt)) pid = Some a"
  by (rule lockedUpdate_reconcile_induct) (simp_all add: map_of_record_keeps)

lemma nth_heap_record_other:
  assumes "wellFormed pt" and "map_of (pidMap pt) pid = Some a"
    and "\<not> (admitted (cfg pt) g \<and> Pid g = pid)"
  shows "heap (lockedUpdate_record fr g pt) ! a = heap pt ! a"
proof (cases rule: lockedUpdate_record_cases[where pt = pt and g = g and fr = fr])
  case skip
  then show ?thesis by simp
next
  case (refresh b)
  have "b \<noteq> a"
    using wellFormed_map_of(2)[OF assms(1) refresh(2)] wellFormed_map_of(2)[OF assms(1,2)]
      assms(3) refresh(1) by auto
  then show ?thesis by (simp add: refresh(3) nth_store)
next
  case add
  then show ?thesis using wellFormed_map_of(1)[OF assms(1,2)] by (simp add: nth_append)
qed

lemma nth_heap_record_same:
  assumes "wellFormed pt" and "map_of (pidMap pt) pid = Some a"
    and "admitted (cfg pt) g" and "Pid g = pid"
  shows "heap (lockedUpdate_record fr g pt) ! a =
           (heap pt ! a)\<lparr>gopsProcess := g, isTombstone := False\<rparr>"
  using assms wellFormed_map_of(1)[OF assms(1,2)]
  by (cases rule: lockedUpdate_record_cases[where pt = pt and g = g and fr = fr])
     (auto simp: nth_store)

lemma nth_heap_reconcile:
  assumes "wellFormed pt" and "map_of (pidMap pt) pid = Some a"
  shows "heap (lockedUpdate_reconcile fr gs pt) ! a =
          (if recordsFor (cfg pt) pid gs = [] then heap pt ! a
           else (heap pt ! a)\<lparr>gopsProcess := last (recordsFor (cfg pt) pid gs),
                              isTombstone := False\<rparr>)"
proof (induction gs rule: rev_induct)
  case Nil
  then show ?case by (simp add: recordsFor_def)
next
  case (snoc g gs)
  let ?pt = "lockedUpdate_reconcile fr gs pt"
  have wf: "wellFormed ?pt" by (rule wellFormed_reconcile[OF assms(1)])
  have look: "map_of (pidMap ?pt) pid = Some a" by (rule map_of_reconcile_keeps[OF assms(2)])
  show ?case
  proof (cases "admitted (cfg pt) g \<and> Pid g = pid")
    case True
    then show ?thesis
      using nth_heap_record_same[OF wf look, of g fr] snoc
      by (simp add: lockedUpdate_reconcile_snoc recordsFor_def)
  next
    case False
    then show ?thesis
      using nth_heap_record_other[OF wf look, of g fr] snoc
      by (simp add: lockedUpdate_reconcile_snoc recordsFor_def)
  qed
qed

subsection \<open>Pruning and the configured roots\<close>

lemma heap_prune [simp]: "heap (lockedUpdate_prune b pt) = heap pt"
  and cfg_prune [simp]: "cfg (lockedUpdate_prune b pt) = cfg pt"
  and cfgRootProcs_prune [simp]: "cfgRootProcs (lockedUpdate_prune b pt) = cfgRootProcs pt"
  by (simp_all add: lockedUpdate_prune_def)

lemma mem_pidMap_prune:
  "(pid, a) \<in> set (pidMap (lockedUpdate_prune b pt)) \<longleftrightarrow>
     (pid, a) \<in> set (pidMap pt) \<and> \<not> (b \<and> isTombstone (heap pt ! a))"
  by (auto simp: lockedUpdate_prune_def)

lemma wellFormed_prune: "wellFormed pt \<Longrightarrow> wellFormed (lockedUpdate_prune b pt)"
  by (auto simp: wellFormed_def lockedUpdate_prune_def distinct_map_filter)

lemma map_of_prune:
  assumes "wellFormed pt" and "map_of (pidMap pt) pid = Some a"
  shows "map_of (pidMap (lockedUpdate_prune b pt)) pid =
           (if b \<and> isTombstone (heap pt ! a) then None else Some a)"
proof (cases "b \<and> isTombstone (heap pt ! a)")
  case True
  have "pid \<notin> fst ` set (pidMap (lockedUpdate_prune b pt))"
  proof
    assume "pid \<in> fst ` set (pidMap (lockedUpdate_prune b pt))"
    then obtain a' where mem: "(pid, a') \<in> set (pidMap (lockedUpdate_prune b pt))" by auto
    then have "(pid, a') \<in> set (pidMap pt)" and keep: "\<not> (b \<and> isTombstone (heap pt ! a'))"
      by (simp_all add: mem_pidMap_prune)
    then have "map_of (pidMap pt) pid = Some a'"
      using wellFormed_distinct[OF assms(1)] by simp
    then show False using assms(2) True keep by simp
  qed
  then show ?thesis using True by (simp add: map_of_eq_None_iff)
next
  case False
  have "(pid, a) \<in> set (pidMap (lockedUpdate_prune b pt))"
    using False map_of_SomeD[OF assms(2)] by (auto simp: mem_pidMap_prune)
  then show ?thesis
    using False wellFormed_distinct[OF wellFormed_prune[OF assms(1), of b]] by simp
qed

lemma map_of_prune_None:
  "map_of (pidMap pt) pid = None \<Longrightarrow> map_of (pidMap (lockedUpdate_prune b pt)) pid = None"
  by (force simp: map_of_eq_None_iff mem_pidMap_prune)

lemma cfg_reconciled [simp]: "cfg (reconciled b gs pt) = cfg pt"
  and cfgRootProcs_reconciled [simp]: "cfgRootProcs (reconciled b gs pt) = cfgRootProcs pt"
  by (simp_all add: reconciled_def)

lemma wellFormed_reconciled: "wellFormed pt \<Longrightarrow> wellFormed (reconciled b gs pt)"
  unfolding reconciled_def
  by (intro wellFormed_prune wellFormed_reconcile wellFormed_tombstone)

lemma lockedUpdate_lookupRoots_Inl:
  "lockedUpdate_lookupRoots pm pids found = Inl pid \<Longrightarrow> pid \<in> set pids \<and> map_of pm pid = None"
  by (induction pm pids found rule: lockedUpdate_lookupRoots.induct) (auto split: option.splits)

lemma lockedUpdate_lookupRoots_missing:
  "\<exists>pid \<in> set pids. map_of pm pid = None \<Longrightarrow>
   \<exists>pid. lockedUpdate_lookupRoots pm pids found = Inl pid"
  by (induction pm pids found rule: lockedUpdate_lookupRoots.induct) (auto split: option.splits)

lemma lockedUpdate_lookupRoots_Inr:
  "lockedUpdate_lookupRoots pm pids found = Inr rs \<Longrightarrow>
     map Some rs = map Some found @ map (map_of pm) pids"
  by (induction pm pids found arbitrary: rs rule: lockedUpdate_lookupRoots.induct)
     (auto split: option.splits)

lemma lockedUpdate_resolve_Inr:
  assumes "lockedUpdate_resolve fr pt = Inr pt'"
  shows "heap pt' = heap pt" "pidMap pt' = pidMap pt" "cfg pt' = cfg pt"
  using assms by (auto simp: lockedUpdate_resolve_def split: if_splits sum.splits)

lemma lockedUpdate_resolve_Inl:
  assumes "lockedUpdate_resolve fr pt = Inl err"
  shows "\<exists>pid. err = RootPidNotFound pid \<and> pid \<in> set (rootPids (cfg pt)) \<and>
               map_of (pidMap pt) pid = None"
  using assms lockedUpdate_lookupRoots_Inl[of "pidMap pt" "rootPids (cfg pt)" "[]"]
  by (auto simp: lockedUpdate_resolve_def split: if_splits sum.splits)

subsection \<open>The absolute structure\<close>

lemma keeps_link:
  assumes "\<And>p u. f (absChildProcs_update u p) = f p" "\<And>p u. f (parentProc_update u p) = f p"
          "\<And>p u. f (origParentProc_update u p) = f p"
  shows "keeps f hp (fst (lockedUpdate_link pm a (hp, roots)))"
  by (auto simp: lockedUpdate_link_def Let_def assms split: option.splits
           intro!: keeps_trans[OF keeps_store keeps_trans[OF keeps_store keeps_store]])

lemma keeps_fold_link:
  assumes "\<And>p u. f (absChildProcs_update u p) = f p" "\<And>p u. f (parentProc_update u p) = f p"
          "\<And>p u. f (origParentProc_update u p) = f p"
  shows "keeps f (fst s) (fst (fold (lockedUpdate_link pm) as s))"
proof (induction as arbitrary: s)
  case Nil
  show ?case by simp
next
  case (Cons a as)
  obtain hp roots where s: "s = (hp, roots)" by (cases s)
  have "keeps f (fst s) (fst (lockedUpdate_link pm a s))"
    unfolding s fst_conv by (rule keeps_link) (rule assms)+
  then show ?case using Cons[of "lockedUpdate_link pm a s"] by (auto intro: keeps_trans)
qed

lemma keeps_sortAbsChildren:
  assumes "\<And>p u. f (absChildProcs_update u p) = f p"
  shows "keeps f hp (lockedUpdate_sortAbsChildren procs hp)"
  unfolding lockedUpdate_sortAbsChildren_def
  by (rule keeps_fold_store) (simp add: assms)

lemma pidMap_absolute [simp]: "pidMap (lockedUpdate_absolute pt) = pidMap pt"
  and cfg_absolute [simp]: "cfg (lockedUpdate_absolute pt) = cfg pt"
  and cfgRootProcs_absolute [simp]: "cfgRootProcs (lockedUpdate_absolute pt) = cfgRootProcs pt"
  by (simp_all add: lockedUpdate_absolute_def Let_def split: prod.splits)

lemma keeps_absolute:
  assumes "\<And>p u. f (absChildProcs_update u p) = f p" "\<And>p u. f (parentProc_update u p) = f p"
          "\<And>p u. f (origParentProc_update u p) = f p"
  shows "keeps f (heap pt) (heap (lockedUpdate_absolute pt))"
proof -
  obtain hp roots where
    f: "fold (lockedUpdate_link (pidMap pt)) (map snd (pidMap pt)) (heap pt, []) = (hp, roots)"
    by (cases "fold (lockedUpdate_link (pidMap pt)) (map snd (pidMap pt)) (heap pt, [])")
  have "keeps f (heap pt) hp"
    using keeps_fold_link[where f = f and s = "(heap pt, [])" and pm = "pidMap pt"
        and as = "map snd (pidMap pt)"] assms
    by (simp add: f)
  moreover have "keeps f hp (lockedUpdate_sortAbsChildren (lockedSortProcessesByPid hp (map snd (pidMap pt))) hp)"
    by (rule keeps_sortAbsChildren) (rule assms)
  ultimately show ?thesis
    by (simp add: lockedUpdate_absolute_def Let_def f keeps_trans)
qed

subsection \<open>The walks\<close>

lemma keeps_lockedWalkFullSubtree:
  assumes "\<And>p hp x hp1. h p hp = (x, hp1) \<Longrightarrow> keeps f hp hp1"
  shows "lockedWalkFullSubtree n h p hp = Some (e, hp') \<Longrightarrow> keeps f hp hp'"
    and "lockedWalkFullSubtree_children n h cs hp = Some (e, hp') \<Longrightarrow> keeps f hp hp'"
  using assms
proof (induction n h p hp and n h cs hp arbitrary: e hp' and e hp'
        rule: lockedWalkFullSubtree_lockedWalkFullSubtree_children.induct)
  case (1 h p hp)
  then show ?case by simp
next
  case (2 n h p hp)
  obtain x hp1 where hx: "h p hp = (x, hp1)" by (cases "h p hp")
  then have m: "keeps f hp hp1" using "2.prems"(2) by blast
  show ?case
  proof (cases x)
    case None
    then have "lockedWalkFullSubtree_children n h (absChildProcs (hp1 ! p)) hp1 = Some (e, hp')"
      using "2.prems"(1) hx by simp
    then have "keeps f hp1 hp'"
      using "2.IH"[OF hx[symmetric] None] "2.prems"(2) by blast
    then show ?thesis using m by (rule keeps_trans[rotated])
  next
    case (Some err)
    then show ?thesis using "2.prems"(1) hx m by simp
  qed
next
  case (3 n h hp)
  then show ?case by simp
next
  case (4 n h child rest hp)
  from "4.prems"(1) obtain x hp1 where w: "lockedWalkFullSubtree n h child hp = Some (x, hp1)"
    by (cases "lockedWalkFullSubtree n h child hp") auto
  have m: "keeps f hp hp1" using "4.IH"(1)[OF w] "4.prems"(2) by blast
  show ?case
  proof (cases x)
    case None
    then have "lockedWalkFullSubtree_children n h rest hp1 = Some (e, hp')"
      using "4.prems"(1) w by simp
    then have "keeps f hp1 hp'"
      using "4.IH"(2)[OF w[unfolded None] refl refl] "4.prems"(2) by blast
    then show ?thesis using m by (rule keeps_trans[rotated])
  next
    case (Some err)
    then show ?thesis using "4.prems"(1) w m by simp
  qed
qed

lemma keeps_lockedFullWalkFromRoots:
  assumes "\<And>p hp x hp1. h p hp = (x, hp1) \<Longrightarrow> keeps f hp hp1"
  shows "lockedFullWalkFromRoots n h roots hp = Some (e, hp') \<Longrightarrow> keeps f hp hp'"
proof (induction roots arbitrary: hp)
  case Nil
  then show ?case by simp
next
  case (Cons r roots)
  from Cons.prems obtain x hp1 where w: "lockedWalkFullSubtree n h r hp = Some (x, hp1)"
    by (cases "lockedWalkFullSubtree n h r hp") auto
  have m: "keeps f hp hp1"
    using keeps_lockedWalkFullSubtree(1)[where h = h and f = f, OF _ w] assms by blast
  show ?case
  proof (cases x)
    case None
    then show ?thesis using Cons.prems w Cons.IH[of hp1] m by (auto intro: keeps_trans)
  next
    case (Some err)
    then show ?thesis using Cons.prems w m by simp
  qed
qed

lemma keeps_lockedWalkFullAncestry:
  assumes "\<And>p hp x hp1. h p hp = (x, hp1) \<Longrightarrow> keeps f hp hp1"
  shows "lockedWalkFullAncestry n h p hp = Some (e, hp') \<Longrightarrow> keeps f hp hp'"
proof (induction n arbitrary: p hp)
  case 0
  then show ?case by simp
next
  case (Suc n)
  obtain x hp1 where hx: "h p hp = (x, hp1)" by (cases "h p hp")
  have m: "keeps f hp hp1" by (rule assms[OF hx])
  show ?case
  proof (cases "x = None \<and> (\<exists>parent. parentProc (hp1 ! p) = Some parent \<and> parent \<noteq> p)")
    case True
    then obtain parent where "parentProc (hp1 ! p) = Some parent" "parent \<noteq> p" by auto
    then have "lockedWalkFullAncestry n h parent hp1 = Some (e, hp')"
      using Suc.prems hx True by simp
    then show ?thesis using Suc.IH m by (auto intro: keeps_trans)
  next
    case False
    then have "hp' = hp1" using Suc.prems hx
      by (cases x; cases "parentProc (hp1 ! p)") (auto split: if_splits)
    then show ?thesis using m by simp
  qed
qed

lemma markIncluded_keeps:
  assumes "\<And>p u. f (isIncluded_update u p) = f p"
  shows "markIncluded p hp = (x, hp1) \<Longrightarrow> keeps f hp hp1"
  by (auto simp: markIncluded_def assms intro!: keeps_store)

lemma markExcluded_keeps:
  assumes "\<And>p u. f (isIncluded_update u p) = f p"
  shows "markExcluded p hp = (x, hp1) \<Longrightarrow> keeps f hp hp1"
  by (auto simp: markExcluded_def assms intro!: keeps_store)

lemma keeps_lockedUpdate_ancestors:
  assumes "\<And>p u. f (isIncluded_update u p) = f p"
  shows "lockedUpdate_ancestors n roots hp = Some (e, hp') \<Longrightarrow> keeps f hp hp'"
proof (induction roots arbitrary: hp)
  case Nil
  then show ?case by simp
next
  case (Cons r roots)
  from Cons.prems(1) obtain x hp1 where
    w: "lockedWalkFullAncestry n markIncluded r hp = Some (x, hp1)"
    by (cases "lockedWalkFullAncestry n markIncluded r hp") auto
  have m: "keeps f hp hp1"
    using keeps_lockedWalkFullAncestry[where h = markIncluded and f = f, OF _ w]
      markIncluded_keeps[where f = f] assms by blast
  show ?case
  proof (cases x)
    case None
    then show ?thesis using Cons.prems w Cons.IH[of hp1] m by (auto intro: keeps_trans)
  next
    case (Some err)
    then show ?thesis using Cons.prems w m by simp
  qed
qed

subsection \<open>Inclusion\<close>

lemma lockedUpdate_include_frame:
  assumes "lockedUpdate_include n fr pt = Some (e, pt')"
    and f: "\<And>p u. f (isIncluded_update u p) = f p"
  shows "pt' = pt\<lparr>heap := heap pt'\<rparr>" and "keeps f (heap pt) (heap pt')"
proof -
  have "pt' = pt\<lparr>heap := heap pt'\<rparr> \<and> keeps f (heap pt) (heap pt')"
  proof (cases fr)
    case False
    then have "pt' = pt\<lparr>heap := fold (\<lambda>proc. store proc (\<lambda>p. p\<lparr>isIncluded := True\<rparr>))
                                     (absProcs pt) (heap pt)\<rparr>"
      using assms(1) by (simp add: lockedUpdate_include_def)
    moreover have "keeps f (heap pt) (fold (\<lambda>proc. store proc (\<lambda>p. p\<lparr>isIncluded := True\<rparr>))
                                     (absProcs pt) (heap pt))"
      using keeps_fold_store[where f = f and g = "\<lambda>a hp p. p\<lparr>isIncluded := True\<rparr>"] f by simp
    ultimately show ?thesis by simp
  next
    case True
    let ?roots = "case cfgRootProcs pt of None \<Rightarrow> [] | Some rs \<Rightarrow> rs"
    from assms(1) True obtain x hp1 where
      w: "lockedFullWalkFromRoots n markIncluded ?roots (heap pt) = Some (x, hp1)"
      by (cases "lockedFullWalkFromRoots n markIncluded ?roots (heap pt)")
         (auto simp: lockedUpdate_include_def Let_def)
    have m1: "keeps f (heap pt) hp1"
      using keeps_lockedFullWalkFromRoots[where h = markIncluded and f = f, OF _ w]
        markIncluded_keeps[where f = f] f by blast
    show ?thesis
    proof (cases "x = None \<and> includeRootAncestors (cfg pt)")
      case False
      then have "pt' = pt\<lparr>heap := hp1\<rparr>"
        using assms(1) True w by (cases x) (auto simp: lockedUpdate_include_def Let_def)
      then show ?thesis using m1 by simp
    next
      case anc: True
      from assms(1) True w anc obtain y hp2 where
        a: "lockedUpdate_ancestors n ?roots hp1 = Some (y, hp2)"
        by (cases "lockedUpdate_ancestors n ?roots hp1")
           (auto simp: lockedUpdate_include_def Let_def)
      have m2: "keeps f hp1 hp2"
        using keeps_lockedUpdate_ancestors[where f = f, OF _ a] f by blast
      have "pt' = pt\<lparr>heap := hp2\<rparr>"
        using assms(1) True w anc a by (cases y) (auto simp: lockedUpdate_include_def Let_def)
      then show ?thesis using keeps_trans[OF m1 m2] by simp
    qed
  qed
  then show "pt' = pt\<lparr>heap := heap pt'\<rparr>" and "keeps f (heap pt) (heap pt')" by simp_all
qed

lemma lockedUpdate_kthreads_frame:
  assumes "lockedUpdate_kthreads n pt = Some (e, pt')"
    and f: "\<And>p u. f (isIncluded_update u p) = f p"
  shows "pt' = pt\<lparr>heap := heap pt'\<rparr>" and "keeps f (heap pt) (heap pt')"
proof -
  have "pt' = pt\<lparr>heap := heap pt'\<rparr> \<and> keeps f (heap pt) (heap pt')"
  proof (cases "\<not> includeKernelThreads (cfg pt) \<and> map_of (pidMap pt) kthreadPid \<noteq> None")
    case False
    then have "pt' = pt"
      using assms(1) by (auto simp: lockedUpdate_kthreads_def split: option.splits if_splits)
    then show ?thesis by simp
  next
    case True
    then obtain k where k: "map_of (pidMap pt) kthreadPid = Some k" by auto
    from assms(1) True k obtain x hp1 where
      w: "lockedWalkFullSubtree n markExcluded k (heap pt) = Some (x, hp1)"
      by (cases "lockedWalkFullSubtree n markExcluded k (heap pt)")
         (auto simp: lockedUpdate_kthreads_def)
    have "keeps f (heap pt) hp1"
      using keeps_lockedWalkFullSubtree(1)[where h = markExcluded and f = f, OF _ w]
        markExcluded_keeps[where f = f] f by blast
    moreover have "pt' = pt\<lparr>heap := hp1\<rparr>"
      using assms(1) True k w by (cases x) (auto simp: lockedUpdate_kthreads_def)
    ultimately show ?thesis by simp
  qed
  then show "pt' = pt\<lparr>heap := heap pt'\<rparr>" and "keeps f (heap pt) (heap pt')" by simp_all
qed

subsection \<open>The included structure\<close>

lemma keeps_collect:
  assumes "\<And>p u. f (includedChildProcs_update u p) = f p"
  shows "keeps f (fst s) (fst (lockedUpdate_collect a s))"
  by (cases s) (auto simp: lockedUpdate_collect_def Let_def assms split: option.splits
                     intro!: keeps_store)

lemma keeps_fold_collect:
  assumes "\<And>p u. f (includedChildProcs_update u p) = f p"
  shows "keeps f (fst s) (fst (fold lockedUpdate_collect as s))"
proof (induction as arbitrary: s)
  case Nil
  show ?case by simp
next
  case (Cons a as)
  have "keeps f (fst s) (fst (lockedUpdate_collect a s))" by (rule keeps_collect) (rule assms)
  then show ?case using Cons[of "lockedUpdate_collect a s"] by (auto intro: keeps_trans)
qed

lemma keeps_sortIncludedChildren:
  assumes "\<And>p u. f (includedChildProcs_update u p) = f p"
  shows "keeps f hp (lockedUpdate_sortIncludedChildren procs hp)"
  unfolding lockedUpdate_sortIncludedChildren_def
  by (rule keeps_fold_store) (simp add: assms)

lemma pidMap_included [simp]: "pidMap (lockedUpdate_included pt) = pidMap pt"
  and cfg_included [simp]: "cfg (lockedUpdate_included pt) = cfg pt"
  and cfgRootProcs_included [simp]: "cfgRootProcs (lockedUpdate_included pt) = cfgRootProcs pt"
  and absProcs_included [simp]: "absProcs (lockedUpdate_included pt) = absProcs pt"
  by (simp_all add: lockedUpdate_included_def split: prod.splits)

lemma keeps_included:
  assumes "\<And>p u. f (includedChildProcs_update u p) = f p"
  shows "keeps f (heap pt) (heap (lockedUpdate_included pt))"
proof -
  obtain hp incl roots where
    f: "fold lockedUpdate_collect (absProcs pt) (heap pt, [], []) = (hp, incl, roots)"
    by (cases "fold lockedUpdate_collect (absProcs pt) (heap pt, [], [])")
  have "keeps f (heap pt) hp"
    using keeps_fold_collect[where f = f and s = "(heap pt, [], [])" and as = "absProcs pt"] assms
    by (simp add: f)
  moreover have "keeps f hp (lockedUpdate_sortIncludedChildren (absProcs pt) hp)"
    by (rule keeps_sortIncludedChildren) (rule assms)
  ultimately show ?thesis
    by (simp add: lockedUpdate_included_def f keeps_trans)
qed

subsection \<open>The whole update\<close>

text \<open>
  An update that returns went through the stages below. After reconciliation and
  pruning only the structural fields and the inclusion flag of the process objects
  are written.
\<close>

lemma thenStage_cases [consumes 1, case_names failed passed]:
  assumes "thenStage x next = Some (r, pt')"
  obtains (failed) err where "x = Some (Some err, pt')" "r = Some err"
        | (passed) pt1 where "x = Some (None, pt1)" "next pt1 = Some (r, pt')"
  using assms by (auto simp: thenStage_def split: option.splits prod.splits)

lemma lockedUpdate_Inr_cases [consumes 1, case_names missing includeFailed kthreadsFailed finished]:
  assumes "lockedUpdate n b (Inr gs) pt = Some (r, pt')"
  obtains
    (missing) err where
      "lockedUpdate_resolve (rootPids (cfg pt) \<noteq> []) (reconciled b gs pt) = Inl err"
      "r = Some err" "pt' = (reconciled b gs pt)\<lparr>cfgRootProcs := None\<rparr>"
  | (includeFailed) pt4 err where
      "lockedUpdate_resolve (rootPids (cfg pt) \<noteq> []) (reconciled b gs pt) = Inr pt4"
      "lockedUpdate_include n (rootPids (cfg pt) \<noteq> []) (lockedUpdate_absolute pt4) = Some (Some err, pt')"
      "r = Some err"
  | (kthreadsFailed) pt4 pt5 err where
      "lockedUpdate_resolve (rootPids (cfg pt) \<noteq> []) (reconciled b gs pt) = Inr pt4"
      "lockedUpdate_include n (rootPids (cfg pt) \<noteq> []) (lockedUpdate_absolute pt4) = Some (None, pt5)"
      "lockedUpdate_kthreads n pt5 = Some (Some err, pt')"
      "r = Some err"
  | (finished) pt4 pt5 pt6 where
      "lockedUpdate_resolve (rootPids (cfg pt) \<noteq> []) (reconciled b gs pt) = Inr pt4"
      "lockedUpdate_include n (rootPids (cfg pt) \<noteq> []) (lockedUpdate_absolute pt4) = Some (None, pt5)"
      "lockedUpdate_kthreads n pt5 = Some (None, pt6)"
      "r = None" "pt' = lockedUpdate_included pt6"
proof (cases "lockedUpdate_resolve (rootPids (cfg pt) \<noteq> []) (reconciled b gs pt)")
  case (Inl err)
  then show ?thesis
    using assms by (intro missing[of err]) (simp_all add: lockedUpdate_def reconciled_def Let_def)
next
  case (Inr pt4)
  then have "thenStage (lockedUpdate_include n (rootPids (cfg pt) \<noteq> []) (lockedUpdate_absolute pt4))
               (\<lambda>pt5. thenStage (lockedUpdate_kthreads n pt5)
                 (\<lambda>pt6. Some (None, lockedUpdate_included pt6))) = Some (r, pt')"
    using assms by (simp add: lockedUpdate_def reconciled_def Let_def)
  then show ?thesis
  proof (cases rule: thenStage_cases)
    case (failed err)
    then show ?thesis using Inr by (intro includeFailed)
  next
    case (passed pt5)
    from passed(2) show ?thesis
    proof (cases rule: thenStage_cases)
      case (failed err)
      then show ?thesis using Inr passed(1) by (intro kthreadsFailed)
    next
      case inner: (passed pt6)
      then show ?thesis using Inr passed(1) by (intro finished) auto
    qed
  qed
qed

text \<open>What every stage after pruning leaves alone.\<close>

lemma lockedUpdate_absolute_frame:
  assumes "keeps gopsProcess hp (heap pt)" "keeps isTombstone hp (heap pt)"
  shows "keeps gopsProcess hp (heap (lockedUpdate_absolute pt))"
    and "keeps isTombstone hp (heap (lockedUpdate_absolute pt))"
  using assms keeps_absolute[where f = gopsProcess and pt = pt]
    keeps_absolute[where f = isTombstone and pt = pt]
  by (auto intro: keeps_trans)

lemma lockedUpdate_include_raw:
  assumes "lockedUpdate_include n fr pt = Some (e, pt')"
  shows "cfg pt' = cfg pt" and "pidMap pt' = pidMap pt" and "absProcs pt' = absProcs pt"
    and "keeps gopsProcess (heap pt) (heap pt')" and "keeps isTombstone (heap pt) (heap pt')"
    and "keeps includedChildProcs (heap pt) (heap pt')" and "keeps parentProc (heap pt) (heap pt')"
    and "keeps absChildProcs (heap pt) (heap pt')"
proof -
  have eq: "pt' = pt\<lparr>heap := heap pt'\<rparr>"
    by (rule lockedUpdate_include_frame(1)[OF assms, where f = isTombstone]) simp
  show "cfg pt' = cfg pt" and "pidMap pt' = pidMap pt" and "absProcs pt' = absProcs pt"
    by (subst eq, simp)+
  show "keeps gopsProcess (heap pt) (heap pt')" and "keeps isTombstone (heap pt) (heap pt')"
    and "keeps includedChildProcs (heap pt) (heap pt')" and "keeps parentProc (heap pt) (heap pt')"
    and "keeps absChildProcs (heap pt) (heap pt')"
    by (rule lockedUpdate_include_frame(2)[OF assms], simp)+
qed

lemma lockedUpdate_kthreads_raw:
  assumes "lockedUpdate_kthreads n pt = Some (e, pt')"
  shows "cfg pt' = cfg pt" and "pidMap pt' = pidMap pt" and "absProcs pt' = absProcs pt"
    and "keeps gopsProcess (heap pt) (heap pt')" and "keeps isTombstone (heap pt) (heap pt')"
    and "keeps includedChildProcs (heap pt) (heap pt')" and "keeps parentProc (heap pt) (heap pt')"
    and "keeps absChildProcs (heap pt) (heap pt')"
proof -
  have eq: "pt' = pt\<lparr>heap := heap pt'\<rparr>"
    by (rule lockedUpdate_kthreads_frame(1)[OF assms, where f = isTombstone]) simp
  show "cfg pt' = cfg pt" and "pidMap pt' = pidMap pt" and "absProcs pt' = absProcs pt"
    by (subst eq, simp)+
  show "keeps gopsProcess (heap pt) (heap pt')" and "keeps isTombstone (heap pt) (heap pt')"
    and "keeps includedChildProcs (heap pt) (heap pt')" and "keeps parentProc (heap pt) (heap pt')"
    and "keeps absChildProcs (heap pt) (heap pt')"
    by (rule lockedUpdate_kthreads_frame(2)[OF assms], simp)+
qed

lemma lockedUpdate_Inr_frame:
  assumes "lockedUpdate n b (Inr gs) pt = Some (r, pt')"
  shows "cfg pt' = cfg pt" and "pidMap pt' = pidMap (reconciled b gs pt)"
    and "keeps gopsProcess (heap (reconciled b gs pt)) (heap pt')"
    and "keeps isTombstone (heap (reconciled b gs pt)) (heap pt')"
proof -
  let ?pt3 = "reconciled b gs pt"
  have abs: "cfg (lockedUpdate_absolute pt4) = cfg pt \<and>
             pidMap (lockedUpdate_absolute pt4) = pidMap ?pt3 \<and>
             keeps gopsProcess (heap ?pt3) (heap (lockedUpdate_absolute pt4)) \<and>
             keeps isTombstone (heap ?pt3) (heap (lockedUpdate_absolute pt4))"
    if "lockedUpdate_resolve (rootPids (cfg pt) \<noteq> []) ?pt3 = Inr pt4" for pt4
    using lockedUpdate_resolve_Inr[OF that]
      lockedUpdate_absolute_frame[where pt = pt4 and hp = "heap ?pt3"] by simp
  have "cfg pt' = cfg pt \<and> pidMap pt' = pidMap ?pt3 \<and>
        keeps gopsProcess (heap ?pt3) (heap pt') \<and> keeps isTombstone (heap ?pt3) (heap pt')"
    using assms
  proof (cases rule: lockedUpdate_Inr_cases)
    case (missing err)
    then show ?thesis by simp
  next
    case (includeFailed pt4 err)
    show ?thesis
      using abs[OF includeFailed(1)] lockedUpdate_include_raw(1,2,4,5)[OF includeFailed(2)]
      by (auto intro: keeps_trans)
  next
    case (kthreadsFailed pt4 pt5 err)
    show ?thesis
      using abs[OF kthreadsFailed(1)] lockedUpdate_include_raw(1,2,4,5)[OF kthreadsFailed(2)]
        lockedUpdate_kthreads_raw(1,2,4,5)[OF kthreadsFailed(3)]
      by (auto intro: keeps_trans)
  next
    case (finished pt4 pt5 pt6)
    have "keeps gopsProcess (heap pt6) (heap pt')" "keeps isTombstone (heap pt6) (heap pt')"
      unfolding finished(5) by (rule keeps_included, simp)+
    then show ?thesis
      using abs[OF finished(1)] lockedUpdate_include_raw(1,2,4,5)[OF finished(2)]
        lockedUpdate_kthreads_raw(1,2,4,5)[OF finished(3)] finished(5)
      by (auto intro: keeps_trans)
  qed
  then show "cfg pt' = cfg pt" and "pidMap pt' = pidMap (reconciled b gs pt)"
    and "keeps gopsProcess (heap (reconciled b gs pt)) (heap pt')"
    and "keeps isTombstone (heap (reconciled b gs pt)) (heap pt')" by simp_all
qed

lemma wellFormed_lockedUpdate:
  assumes "wellFormed pt" and "lockedUpdate n b enum pt = Some (r, pt')"
  shows "wellFormed pt'"
proof (cases enum)
  case (Inl err)
  then show ?thesis using assms by (simp add: lockedUpdate_def)
next
  case (Inr gs)
  note fr = lockedUpdate_Inr_frame[OF assms(2)[unfolded Inr]]
  show ?thesis
    by (rule wellFormed_keeps[OF wellFormed_reconciled[OF assms(1)] fr(2) fr(3)])
qed

lemma wellFormed_Update:
  "wellFormed pt \<Longrightarrow> Update n b enum pt = Some (r, pt') \<Longrightarrow> wellFormed pt'"
  unfolding Update_def by (rule wellFormed_lockedUpdate)

lemma wellFormed_New: "New n c enum = Some (Inr pt) \<Longrightarrow> wellFormed pt"
  using wellFormed_Update[OF wellFormed_emptySession, of n False enum c]
  by (auto simp: New_def split: option.splits prod.splits)

subsection \<open>Lookups by pid across an update\<close>

lemma keys_record:
  "fst ` set (pidMap (lockedUpdate_record fr g pt)) =
     fst ` set (pidMap pt) \<union> (if admitted (cfg pt) g then {Pid g} else {})"
  by (cases rule: lockedUpdate_record_cases[where pt = pt and g = g and fr = fr])
     (auto dest: map_of_SomeD simp: rev_image_eqI)

lemma keys_reconcile:
  "fst ` set (pidMap (lockedUpdate_reconcile fr gs pt)) =
     fst ` set (pidMap pt) \<union> Pid ` {g \<in> set gs. admitted (cfg pt) g}"
proof (induction gs rule: rev_induct)
  case Nil
  show ?case by simp
next
  case (snoc g gs)
  show ?case
    unfolding lockedUpdate_reconcile_snoc keys_record snoc cfg_reconcile by auto
qed

lemma map_of_reconcile_None:
  "map_of (pidMap (lockedUpdate_reconcile fr gs pt)) pid = None \<longleftrightarrow>
     map_of (pidMap pt) pid = None \<and> recordsFor (cfg pt) pid gs = []"
  by (auto simp: map_of_eq_None_iff keys_reconcile recordsFor_def filter_empty_conv)

lemma PidProcess_reconciled_emptySession:
  "recordsFor c pid gs = [] \<Longrightarrow> PidProcess (reconciled b gs (emptySession c)) pid = None"
  unfolding PidProcess_def reconciled_def
  by (rule map_of_prune_None)
     (simp add: map_of_reconcile_None, simp add: emptySession_def lockedUpdate_tombstone_def)

lemma lockedUpdate_missing_root:
  assumes "pid \<in> set (rootPids (cfg pt))" and "cfgRootProcs pt = None"
    and "PidProcess (reconciled b gs pt) pid = None"
  shows "\<exists>missing. lockedUpdate n b (Inr gs) pt =
           Some (Some (RootPidNotFound missing), (reconciled b gs pt)\<lparr>cfgRootProcs := None\<rparr>) \<and>
         missing \<in> set (rootPids (cfg pt))"
proof -
  have fr: "rootPids (cfg pt) \<noteq> []" using assms(1) by auto
  have "\<exists>p \<in> set (rootPids (cfg pt)). map_of (pidMap (reconciled b gs pt)) p = None"
    using assms(1,3) by (auto simp: PidProcess_def)
  then obtain missing where
    l: "lockedUpdate_lookupRoots (pidMap (reconciled b gs pt)) (rootPids (cfg pt)) [] = Inl missing"
    using lockedUpdate_lookupRoots_missing by blast
  then have "lockedUpdate_resolve True (reconciled b gs pt) = Inl (RootPidNotFound missing)"
    using assms(2) by (simp add: lockedUpdate_resolve_def)
  then have "lockedUpdate n b (Inr gs) pt =
      Some (Some (RootPidNotFound missing), (reconciled b gs pt)\<lparr>cfgRootProcs := None\<rparr>)"
    using fr by (simp add: lockedUpdate_def reconciled_def Let_def)
  then show ?thesis using lockedUpdate_lookupRoots_Inl[OF l] by auto
qed

lemma lockedUpdate_known_pid:
  assumes "wellFormed pt" and "map_of (pidMap pt) pid = Some proc"
    and "lockedUpdate n b (Inr gs) pt = Some (r, pt')"
  shows "recordsFor (cfg pt) pid gs \<noteq> [] \<Longrightarrow>
           map_of (pidMap pt') pid = Some proc \<and> \<not> isTombstone (heap pt' ! proc) \<and>
           gopsProcess (heap pt' ! proc) = last (recordsFor (cfg pt) pid gs)"
    and "recordsFor (cfg pt) pid gs = [] \<Longrightarrow>
           map_of (pidMap pt') pid = (if b then None else Some proc) \<and>
           isTombstone (heap pt' ! proc) \<and>
           gopsProcess (heap pt' ! proc) = gopsProcess (heap pt ! proc)"
proof -
  let ?fr = "rootPids (cfg pt) \<noteq> []"
  let ?pt1 = "lockedUpdate_tombstone pt"
  let ?pt2 = "lockedUpdate_reconcile ?fr gs ?pt1"
  note fr = lockedUpdate_Inr_frame[OF assms(3)]
  have wf1: "wellFormed ?pt1" by (rule wellFormed_tombstone[OF assms(1)])
  have wf2: "wellFormed ?pt2" by (rule wellFormed_reconcile[OF wf1])
  have l1: "map_of (pidMap ?pt1) pid = Some proc" using assms(2) by simp
  have l2: "map_of (pidMap ?pt2) pid = Some proc" by (rule map_of_reconcile_keeps[OF l1])
  have t1: "heap ?pt1 ! proc =
      (heap pt ! proc)\<lparr>isTombstone := True, absChildProcs := [], includedChildProcs := []\<rparr>"
    using wellFormed_map_of(1)[OF assms(1,2)] map_of_SomeD[OF assms(2)]
    by (force simp: nth_heap_tombstone)
  note h2 = nth_heap_reconcile[OF wf1 l1, of ?fr gs]
  have l3: "map_of (pidMap pt') pid = (if b \<and> isTombstone (heap ?pt2 ! proc) then None else Some proc)"
    using map_of_prune[OF wf2 l2, of b] fr(2) by (simp add: reconciled_def)
  have raw: "isTombstone (heap pt' ! proc) = isTombstone (heap ?pt2 ! proc)"
    "gopsProcess (heap pt' ! proc) = gopsProcess (heap ?pt2 ! proc)"
    using keepsD[OF fr(4), of proc] keepsD[OF fr(3), of proc] by (simp_all add: reconciled_def)
  show "recordsFor (cfg pt) pid gs \<noteq> [] \<Longrightarrow>
           map_of (pidMap pt') pid = Some proc \<and> \<not> isTombstone (heap pt' ! proc) \<and>
           gopsProcess (heap pt' ! proc) = last (recordsFor (cfg pt) pid gs)"
    using h2 l3 raw by simp
  show "recordsFor (cfg pt) pid gs = [] \<Longrightarrow>
           map_of (pidMap pt') pid = (if b then None else Some proc) \<and>
           isTombstone (heap pt' ! proc) \<and>
           gopsProcess (heap pt' ! proc) = gopsProcess (heap pt ! proc)"
    using h2 l3 raw t1 by simp
qed

subsection \<open>Sorting by pid\<close>

lemma sorted_wrt_subseq: "subseq ys xs \<Longrightarrow> sorted_wrt R xs \<Longrightarrow> sorted_wrt R ys"
proof (induction ys xs rule: list_emb.induct)
  case (list_emb_Nil ys)
  show ?case by simp
next
  case (list_emb_Cons xs ys y)
  then show ?case by simp
next
  case (list_emb_Cons2 x y xs ys)
  then have "set xs \<subseteq> set ys" by (auto dest: list_emb_set)
  then show ?case using list_emb_Cons2 by auto
qed

lemma sort_key_idem: "sort_key f (sort_key f xs) = sort_key f xs"
  by (simp add: sort_key_id_if_sorted)

lemma strictly_sorted_sort_key:
  assumes "distinct (map f xs)"
  shows "sorted_wrt (<) (map f (sort_key f xs))"
proof -
  have "distinct (map f (sort_key f xs))"
    using assms by (simp add: distinct_map)
  then show ?thesis by (simp add: strict_sorted_iff)
qed

lemma sort_key_strictly_sorted: "sorted_wrt (<) (map f xs) \<Longrightarrow> sort_key f xs = xs"
  by (simp add: sort_key_id_if_sorted strict_sorted_iff)

lemma lockedPid_fold_link:
  "fold (lockedUpdate_link pm) as (hp, roots) = (hp', roots') \<Longrightarrow> lockedPid hp' = lockedPid hp"
  using keeps_fold_link[where f = gopsProcess and s = "(hp, roots)" and pm = pm and as = as]
  by (simp add: keeps_lockedPid)

lemma absProcs_absolute:
  "absProcs (lockedUpdate_absolute pt) = sort_key (lockedPid (heap pt)) (map snd (pidMap pt))"
proof -
  obtain hp roots where
    f: "fold (lockedUpdate_link (pidMap pt)) (map snd (pidMap pt)) (heap pt, []) = (hp, roots)"
    by (cases "fold (lockedUpdate_link (pidMap pt)) (map snd (pidMap pt)) (heap pt, [])")
  show ?thesis
    by (simp add: lockedUpdate_absolute_def f Let_def lockedSortProcessesByPid_def lockedPid_fold_link[OF f])
qed

lemma wellFormed_map_lockedPid:
  "wellFormed pt \<Longrightarrow> map (lockedPid (heap pt)) (map snd (pidMap pt)) = map fst (pidMap pt)"
  by (auto simp: wellFormed_def)

lemma absProcs_absolute_sorted:
  assumes "wellFormed pt"
  shows "sorted_wrt (<) (map (lockedPid (heap pt)) (absProcs (lockedUpdate_absolute pt)))"
    and "set (absProcs (lockedUpdate_absolute pt)) = snd ` set (pidMap pt)"
proof -
  have "distinct (map (lockedPid (heap pt)) (map snd (pidMap pt)))"
    using assms by (simp only: wellFormed_map_lockedPid wellFormed_distinct)
  then show "sorted_wrt (<) (map (lockedPid (heap pt)) (absProcs (lockedUpdate_absolute pt)))"
    unfolding absProcs_absolute by (rule strictly_sorted_sort_key)
  show "set (absProcs (lockedUpdate_absolute pt)) = snd ` set (pidMap pt)"
    by (simp add: absProcs_absolute)
qed

lemma childless_tombstone: "wellFormed pt \<Longrightarrow> childless (lockedUpdate_tombstone pt)"
  by (force simp: childless_def nth_heap_tombstone wellFormed_def)

lemma childless_record:
  assumes "wellFormed pt" and "childless pt"
  shows "childless (lockedUpdate_record fr g pt)"
proof (cases rule: lockedUpdate_record_cases[where pt = pt and g = g and fr = fr])
  case skip
  then show ?thesis using assms by simp
next
  case (refresh a)
  then show ?thesis using assms(2) by (auto simp: childless_def nth_store)
next
  case add
  then show ?thesis using assms
    by (auto simp: childless_def wellFormed_def nth_append newProcess_def)
qed

lemma childless_reconcile:
  assumes "wellFormed pt" and "childless pt"
  shows "childless (lockedUpdate_reconcile fr gs pt)"
proof -
  have "wellFormed (lockedUpdate_reconcile fr gs pt) \<and> childless (lockedUpdate_reconcile fr gs pt)"
    by (rule lockedUpdate_reconcile_induct[where I = "\<lambda>pt. wellFormed pt \<and> childless pt"])
       (simp_all add: assms wellFormed_record childless_record)
  then show ?thesis by simp
qed

lemma childless_reconciled: "wellFormed pt \<Longrightarrow> childless (reconciled b gs pt)"
  using childless_reconcile[OF wellFormed_tombstone childless_tombstone, of pt "rootPids (cfg pt) \<noteq> []" gs]
  by (auto simp: reconciled_def childless_def mem_pidMap_prune)

lemma lockedUpdate_collect_step:
  assumes "lockedUpdate_collect a (hp, incl, roots) = (hp1, incl1, roots1)"
  shows "(incl1 = incl \<or> incl1 = incl @ [a]) \<and> (roots1 = roots \<or> roots1 = roots @ [a]) \<and>
         (includedChildProcs (hp1 ! b) = includedChildProcs (hp ! b) \<or>
          includedChildProcs (hp1 ! b) = includedChildProcs (hp ! b) @ [a])"
  using assms
  by (auto simp: lockedUpdate_collect_def Let_def nth_store split: if_splits option.splits)

lemma fold_collect_subseq:
  assumes "fold lockedUpdate_collect as (hp, incl, roots) = (hp', incl', roots')"
  shows "(\<exists>ys. incl' = incl @ ys \<and> subseq ys as) \<and> (\<exists>zs. roots' = roots @ zs \<and> subseq zs as) \<and>
         (\<exists>cs. includedChildProcs (hp' ! b) = includedChildProcs (hp ! b) @ cs \<and> subseq cs as)"
  using assms
proof (induction as arbitrary: hp incl roots)
  case Nil
  then show ?case by simp
next
  case (Cons a as)
  obtain hp1 incl1 roots1 where
    s: "lockedUpdate_collect a (hp, incl, roots) = (hp1, incl1, roots1)"
    by (cases "lockedUpdate_collect a (hp, incl, roots)") auto
  note st = lockedUpdate_collect_step[OF s, of b]
  from Cons.prems have "fold lockedUpdate_collect as (hp1, incl1, roots1) = (hp', incl', roots')"
    by (simp add: s)
  from Cons.IH[OF this] obtain ys zs cs where
    ys: "incl' = incl1 @ ys" "subseq ys as" and zs: "roots' = roots1 @ zs" "subseq zs as"
    and cs: "includedChildProcs (hp' ! b) = includedChildProcs (hp1 ! b) @ cs" "subseq cs as"
    by blast
  have "\<exists>ys'. incl' = incl @ ys' \<and> subseq ys' (a # as)"
    using st ys by (elim conjE disjE) (auto intro: exI[of _ ys] exI[of _ "a # ys"])
  moreover have "\<exists>zs'. roots' = roots @ zs' \<and> subseq zs' (a # as)"
    using st zs by (elim conjE disjE) (auto intro: exI[of _ zs] exI[of _ "a # zs"])
  moreover have "\<exists>cs'. includedChildProcs (hp' ! b) = includedChildProcs (hp ! b) @ cs' \<and> subseq cs' (a # as)"
    using st cs by (elim conjE disjE) (auto intro: exI[of _ cs] exI[of _ "a # cs"])
  ultimately show ?case by blast
qed

lemma nth_sortIncludedChildren:
  "lockedUpdate_sortIncludedChildren as hp ! b =
     (if b \<in> set as \<and> b < length hp
      then (hp ! b)\<lparr>includedChildProcs := sort_key (lockedPid hp) (includedChildProcs (hp ! b))\<rparr>
      else hp ! b)"
proof (induction as arbitrary: hp)
  case Nil
  show ?case by (simp add: lockedUpdate_sortIncludedChildren_def)
next
  case (Cons a as)
  let ?hp1 = "store a (\<lambda>p. p\<lparr>includedChildProcs := sort_key (lockedPid hp) (includedChildProcs p)\<rparr>) hp"
  have k: "lockedPid ?hp1 = lockedPid hp"
    by (rule keeps_lockedPid[OF keeps_store]) simp
  have "lockedUpdate_sortIncludedChildren (a # as) hp = lockedUpdate_sortIncludedChildren as ?hp1"
    by (simp add: lockedUpdate_sortIncludedChildren_def lockedSortProcessesByPid_def)
  then show ?case
    using Cons[of ?hp1]
    by (auto simp: k nth_store sort_key_idem)
qed

lemma lockedPid_fold_collect:
  "fold lockedUpdate_collect as (hp, incl, roots) = (hp', incl', roots') \<Longrightarrow>
   lockedPid hp' = lockedPid hp"
  using keeps_fold_collect[where f = gopsProcess and s = "(hp, incl, roots)" and as = as]
  by (simp add: keeps_lockedPid)

lemma lockedUpdate_included_sorted:
  assumes "sorted_wrt (<) (map (lockedPid (heap pt)) (absProcs pt))"
  shows "sorted_wrt (<) (map (lockedPid (heap (lockedUpdate_included pt)))
                             (includedProcs (lockedUpdate_included pt)))"
    and "sorted_wrt (<) (map (lockedPid (heap (lockedUpdate_included pt)))
                             (includedRootProcs (lockedUpdate_included pt)))"
    and "includedChildProcs (heap pt ! a) = [] \<Longrightarrow>
         sorted_wrt (<) (map (lockedPid (heap (lockedUpdate_included pt)))
                             (includedChildProcs (heap (lockedUpdate_included pt) ! a)))"
proof -
  let ?K = "lockedPid (heap pt)"
  obtain hp incl roots where
    f: "fold lockedUpdate_collect (absProcs pt) (heap pt, [], []) = (hp, incl, roots)"
    by (cases "fold lockedUpdate_collect (absProcs pt) (heap pt, [], [])")
  have k: "lockedPid hp = ?K" by (rule lockedPid_fold_collect[OF f])
  have k': "lockedPid (heap (lockedUpdate_included pt)) = ?K"
    by (rule keeps_lockedPid[OF keeps_included]) simp
  have srt: "subseq xs (absProcs pt) \<Longrightarrow> sorted_wrt (<) (map ?K xs)" for xs
    using sorted_wrt_subseq[of xs "absProcs pt" "\<lambda>x y. ?K x < ?K y"] assms
    by (simp add: sorted_wrt_map)
  note sub = fold_collect_subseq[OF f]
  have i: "sorted_wrt (<) (map ?K incl)" and r: "sorted_wrt (<) (map ?K roots)"
    using sub[of a] srt by auto
  show "sorted_wrt (<) (map (lockedPid (heap (lockedUpdate_included pt)))
                             (includedProcs (lockedUpdate_included pt)))"
    unfolding k' using i
    by (simp add: lockedUpdate_included_def f lockedSortProcessesByPid_def k sort_key_strictly_sorted)
  show "sorted_wrt (<) (map (lockedPid (heap (lockedUpdate_included pt)))
                             (includedRootProcs (lockedUpdate_included pt)))"
    unfolding k' using r
    by (simp add: lockedUpdate_included_def f lockedSortProcessesByPid_def k sort_key_strictly_sorted)
  show "sorted_wrt (<) (map (lockedPid (heap (lockedUpdate_included pt)))
                             (includedChildProcs (heap (lockedUpdate_included pt) ! a)))"
    if "includedChildProcs (heap pt ! a) = []"
  proof -
    from sub[of a] that obtain cs where
      cs: "includedChildProcs (hp ! a) = cs" "subseq cs (absProcs pt)" by auto
    have "sorted_wrt (<) (map ?K cs)" by (rule srt[OF cs(2)])
    then show ?thesis
      unfolding k'
      by (simp add: lockedUpdate_included_def f nth_sortIncludedChildren k cs(1)
            sort_key_strictly_sorted)
  qed
qed

lemma childless_keeps:
  assumes "childless pt" and "pidMap pt' = pidMap pt"
    and "keeps includedChildProcs (heap pt) (heap pt')"
  shows "childless pt'"
  using assms by (auto simp: childless_def keeps_def)

text \<open>The session that the last stage of a successful update starts from.\<close>

lemma lockedUpdate_before_included:
  assumes "wellFormed pt" and "lockedUpdate n b (Inr gs) pt = Some (None, pt')"
  obtains pt6 where "pt' = lockedUpdate_included pt6"
    and "pidMap pt6 = pidMap (reconciled b gs pt)"
    and "sorted_wrt (<) (map (lockedPid (heap pt6)) (absProcs pt6))"
    and "set (absProcs pt6) = snd ` set (pidMap pt6)"
    and "childless pt6" and "wellFormed pt6"
  using assms(2)
proof (cases rule: lockedUpdate_Inr_cases)
  case (missing err)
  then show ?thesis by simp
next
  case (includeFailed pt4 err)
  then show ?thesis by simp
next
  case (kthreadsFailed pt4 pt5 err)
  then show ?thesis by simp
next
  case (finished pt4 pt5 pt6)
  let ?pt3 = "reconciled b gs pt"
  let ?pt4a = "lockedUpdate_absolute pt4"
  note r4 = lockedUpdate_resolve_Inr[OF finished(1)]
  have wf3: "wellFormed ?pt3" by (rule wellFormed_reconciled[OF assms(1)])
  have wf4: "wellFormed pt4" using wf3 r4 by (simp add: wellFormed_def)
  have cl4: "childless pt4"
    using childless_reconciled[OF assms(1), of b gs] r4 by (simp add: childless_def)
  note a = absProcs_absolute_sorted[OF wf4]
  note i5 = lockedUpdate_include_raw[OF finished(2)]
  note k6 = lockedUpdate_kthreads_raw[OF finished(3)]
  have kg: "keeps gopsProcess (heap pt4) (heap pt6)"
    using keeps_absolute[where f = gopsProcess and pt = pt4] i5(4) k6(4)
    by (auto intro: keeps_trans)
  have ki: "keeps includedChildProcs (heap pt4) (heap pt6)"
    using keeps_absolute[where f = includedChildProcs and pt = pt4] i5(6) k6(6)
    by (auto intro: keeps_trans)
  have pm: "pidMap pt6 = pidMap pt4" using i5(2) k6(2) by simp
  have ab: "absProcs pt6 = absProcs ?pt4a" using i5(3) k6(3) by simp
  show ?thesis
  proof (rule that[of pt6])
    show "pt' = lockedUpdate_included pt6" by (rule finished(5))
    show "pidMap pt6 = pidMap ?pt3" using pm r4 by simp
    show "sorted_wrt (<) (map (lockedPid (heap pt6)) (absProcs pt6))"
      using a(1) by (simp add: ab keeps_lockedPid[OF kg])
    show "set (absProcs pt6) = snd ` set (pidMap pt6)" using a(2) by (simp add: ab pm)
    show "childless pt6" by (rule childless_keeps[OF cl4 pm ki])
    show "wellFormed pt6" by (rule wellFormed_keeps[OF wf4 pm kg])
  qed
qed

subsection \<open>Kernel threads\<close>

lemma kernelFree_emptySession: "kernelFree (emptySession c)"
  by (simp add: kernelFree_def emptySession_def)

lemma kernelFree_keeps:
  assumes "kernelFree pt" and "set (pidMap pt') \<subseteq> set (pidMap pt)"
    and "keeps gopsProcess (heap pt) (heap pt')"
  shows "kernelFree pt'"
  using assms by (fastforce simp: kernelFree_def keeps_def)

lemma kernelFree_tombstone: "kernelFree pt \<Longrightarrow> kernelFree (lockedUpdate_tombstone pt)"
  by (rule kernelFree_keeps[where pt = pt]) (simp_all add: keeps_def nth_heap_tombstone)

lemma kernelFree_record:
  assumes "wellFormed pt" and "kernelFree pt" and "\<not> includeKernelThreads (cfg pt)"
  shows "kernelFree (lockedUpdate_record fr g pt)"
proof (cases rule: lockedUpdate_record_cases[where pt = pt and g = g and fr = fr])
  case skip
  then show ?thesis using assms by simp
next
  case (refresh a)
  then show ?thesis using assms(2,3)
    by (auto simp: kernelFree_def nth_store admitted_def)
next
  case add
  then show ?thesis using assms
    by (auto simp: kernelFree_def wellFormed_def nth_append newProcess_def admitted_def)
qed

lemma kernelFree_reconcile:
  assumes "wellFormed pt" and "kernelFree pt" and "\<not> includeKernelThreads (cfg pt)"
  shows "kernelFree (lockedUpdate_reconcile fr gs pt)"
proof -
  let ?I = "\<lambda>pt. wellFormed pt \<and> kernelFree pt \<and> \<not> includeKernelThreads (cfg pt)"
  have "?I (lockedUpdate_reconcile fr gs pt)"
    by (rule lockedUpdate_reconcile_induct[where I = ?I])
       (simp_all add: assms wellFormed_record kernelFree_record)
  then show ?thesis by simp
qed

lemma kernelFree_reconciled:
  assumes "wellFormed pt" and "kernelFree pt" and "\<not> includeKernelThreads (cfg pt)"
  shows "kernelFree (reconciled b gs pt)"
  using kernelFree_reconcile[OF wellFormed_tombstone[OF assms(1)] kernelFree_tombstone[OF assms(2)],
          of "rootPids (cfg pt) \<noteq> []" gs] assms(3)
  by (auto simp: reconciled_def kernelFree_def mem_pidMap_prune)

lemma kernelFree_no_kthreadPid:
  assumes "wellFormed pt" and "kernelFree pt"
  shows "map_of (pidMap pt) kthreadPid = None"
proof (cases "map_of (pidMap pt) kthreadPid")
  case None
  then show ?thesis .
next
  case (Some a)
  then have "lockedPid (heap pt) a = 2" "(kthreadPid, a) \<in> set (pidMap pt)"
    using wellFormed_map_of(2)[OF assms(1) Some] by (auto simp: kthreadPid_def dest: map_of_SomeD)
  then show ?thesis using assms(2) by (auto simp: kernelFree_def lockedPid_def)
qed

lemma lockedUpdate_kthreads_kernelFree:
  "wellFormed pt \<Longrightarrow> kernelFree pt \<Longrightarrow> lockedUpdate_kthreads n pt = Some (None, pt)"
  by (simp add: lockedUpdate_kthreads_def kernelFree_no_kthreadPid)

lemma set_includedProcs_included:
  "set (includedProcs (lockedUpdate_included pt)) \<subseteq> set (absProcs pt)"
proof -
  obtain hp incl roots where
    f: "fold lockedUpdate_collect (absProcs pt) (heap pt, [], []) = (hp, incl, roots)"
    by (cases "fold lockedUpdate_collect (absProcs pt) (heap pt, [], [])")
  from fold_collect_subseq[OF f, of 0] have "subseq incl (absProcs pt)" by auto
  then have "set incl \<subseteq> set (absProcs pt)" by (auto dest: list_emb_set)
  then show ?thesis by (simp add: lockedUpdate_included_def f lockedSortProcessesByPid_def)
qed

lemma kernelFree_lockedUpdate:
  assumes "wellFormed pt" and "kernelFree pt" and "\<not> includeKernelThreads (cfg pt)"
    and "lockedUpdate n b enum pt = Some (r, pt')"
  shows "kernelFree pt'"
proof (cases enum)
  case (Inl err)
  then show ?thesis using assms by (simp add: lockedUpdate_def)
next
  case (Inr gs)
  note fr = lockedUpdate_Inr_frame[OF assms(4)[unfolded Inr]]
  show ?thesis
    by (rule kernelFree_keeps[OF kernelFree_reconciled[OF assms(1,2,3)] _ fr(3)]) (simp add: fr(2))
qed

lemma cfg_New: "New n c enum = Some (Inr pt) \<Longrightarrow> cfg pt = c"
proof -
  assume a: "New n c enum = Some (Inr pt)"
  then obtain gs where e: "enum = Inr gs"
    by (cases enum) (auto simp: New_def Update_def lockedUpdate_def)
  from a have "lockedUpdate n False (Inr gs) (emptySession c) = Some (None, pt)"
    by (auto simp: New_def Update_def e split: option.splits prod.splits)
  from lockedUpdate_Inr_frame(1)[OF this] show ?thesis by (simp add: emptySession_def)
qed

lemma cfg_Update: "Update n b enum pt = Some (r, pt') \<Longrightarrow> cfg pt' = cfg pt"
  by (cases enum) (auto simp: Update_def lockedUpdate_def[where enum = "Inl _"] dest: lockedUpdate_Inr_frame(1))

lemma kernelFree_New:
  assumes "New n c enum = Some (Inr pt)" and "\<not> includeKernelThreads c"
  shows "kernelFree pt"
proof -
  from assms(1) have "lockedUpdate n False enum (emptySession c) = Some (None, pt)"
    by (auto simp: New_def Update_def split: option.splits prod.splits)
  from kernelFree_lockedUpdate[OF wellFormed_emptySession kernelFree_emptySession _ this] assms(2)
  show ?thesis by (simp add: emptySession_def)
qed

text \<open>The invariants hold of every session a caller can hold.\<close>

lemma reachable_invariants:
  "reachable pt \<Longrightarrow> wellFormed pt \<and> (\<not> includeKernelThreads (cfg pt) \<longrightarrow> kernelFree pt)"
proof (induction rule: reachable.induct)
  case (created n c enum pt)
  then show ?case using wellFormed_New cfg_New kernelFree_New by blast
next
  case (updated pt n pruneTombstones enum r pt')
  then show ?case
    using wellFormed_Update[of pt n pruneTombstones enum r pt'] cfg_Update[of n pruneTombstones enum pt r pt']
      kernelFree_lockedUpdate[of pt n pruneTombstones enum r pt']
    by (auto simp: Update_def)
qed

subsection \<open>What the loops build, exactly\<close>

lemma parentOf_keeps: "keeps gopsProcess hp hp' \<Longrightarrow> parentOf pm hp' = parentOf pm hp"
  by (auto simp: parentOf_def keeps_def)

lemma lockedUpdate_reconcile_append:
  "lockedUpdate_reconcile fr (gs1 @ gs2) pt =
     lockedUpdate_reconcile fr gs2 (lockedUpdate_reconcile fr gs1 pt)"
  by (simp add: lockedUpdate_reconcile_def)

lemma lockedUpdate_reconcile_Cons:
  "lockedUpdate_reconcile fr (g # gs) pt = lockedUpdate_reconcile fr gs (lockedUpdate_record fr g pt)"
  by (simp add: lockedUpdate_reconcile_def)

lemma recordsFor_distinct_absent:
  assumes "distinct (map Pid (gs1 @ g # gs2))"
  shows "recordsFor c (Pid g) gs1 = []" and "recordsFor c (Pid g) gs2 = []"
  using assms by (auto simp: recordsFor_def filter_empty_conv image_iff)

lemma lockedUpdate_reconcile_creates:
  assumes "wellFormed pt" and "map_of (pidMap pt) (Pid g) = None"
    and "g \<in> set gs" and "admitted (cfg pt) g" and "distinct (map Pid gs)"
  shows "\<exists>proc. map_of (pidMap (lockedUpdate_reconcile fr gs pt)) (Pid g) = Some proc \<and>
                heap (lockedUpdate_reconcile fr gs pt) ! proc = (newProcess g)\<lparr>isIncluded := \<not> fr\<rparr>"
proof -
  from assms(3) obtain gs1 gs2 where gs: "gs = gs1 @ g # gs2" by (auto dest: split_list)
  note none = recordsFor_distinct_absent[OF assms(5)[unfolded gs], of "cfg pt"]
  let ?pt1 = "lockedUpdate_reconcile fr gs1 pt"
  let ?pt2 = "lockedUpdate_record fr g ?pt1"
  have wf1: "wellFormed ?pt1" by (rule wellFormed_reconcile[OF assms(1)])
  have wf2: "wellFormed ?pt2" by (rule wellFormed_record[OF wf1])
  have n1: "map_of (pidMap ?pt1) (Pid g) = None"
    using assms(2) none(1) by (simp add: map_of_reconcile_None)
  have pt2: "?pt2 = ?pt1\<lparr>heap := heap ?pt1 @ [(newProcess g)\<lparr>isIncluded := \<not> fr\<rparr>],
                         pidMap := pidMap ?pt1 @ [(Pid g, length (heap ?pt1))]\<rparr>"
    using n1 assms(4)
    by (cases rule: lockedUpdate_record_cases[where pt = ?pt1 and g = g and fr = fr]) simp_all
  let ?proc = "length (heap ?pt1)"
  have l2: "map_of (pidMap ?pt2) (Pid g) = Some ?proc"
    by (subst pt2) (simp add: n1 map_add_Some_iff)
  have h2: "heap ?pt2 ! ?proc = (newProcess g)\<lparr>isIncluded := \<not> fr\<rparr>"
    by (subst pt2) simp
  have fin: "lockedUpdate_reconcile fr gs pt = lockedUpdate_reconcile fr gs2 ?pt2"
    by (simp add: gs lockedUpdate_reconcile_append lockedUpdate_reconcile_Cons)
  have "heap (lockedUpdate_reconcile fr gs2 ?pt2) ! ?proc = heap ?pt2 ! ?proc"
    using nth_heap_reconcile[OF wf2 l2, of fr gs2] none(2) by simp
  moreover have "map_of (pidMap (lockedUpdate_reconcile fr gs2 ?pt2)) (Pid g) = Some ?proc"
    by (rule map_of_reconcile_keeps[OF l2])
  ultimately show ?thesis unfolding fin using h2 by auto
qed

lemma lockedUpdate_link_parentOf:
  "lockedUpdate_link pm a (hp, roots) =
     (case parentOf pm hp a of
        None \<Rightarrow> (hp, roots @ [a])
      | Some pp \<Rightarrow>
          (store a (\<lambda>p. if origParentProc p = None then p\<lparr>origParentProc := Some pp\<rparr> else p)
             (store a (\<lambda>p. p\<lparr>parentProc := Some pp\<rparr>)
                (store pp (\<lambda>p. p\<lparr>absChildProcs := absChildProcs p @ [a]\<rparr>) hp)), roots))"
  by (auto simp: lockedUpdate_link_def parentOf_def Let_def split: option.splits)

lemma lockedUpdate_link_step:
  assumes "lockedUpdate_link pm a (hp, roots) = (hp1, roots1)"
  shows "roots1 = roots @ (if parentOf pm hp a = None then [a] else [])"
    and "absChildProcs (hp1 ! b) =
           absChildProcs (hp ! b) @ (if b < length hp \<and> parentOf pm hp a = Some b then [a] else [])"
    and "parentProc (hp1 ! c) =
           (if c = a \<and> a < length hp \<and> parentOf pm hp a \<noteq> None then parentOf pm hp a
            else parentProc (hp ! c))"
    and "keeps gopsProcess hp hp1"
proof -
  show "keeps gopsProcess hp hp1"
    using keeps_link[where f = gopsProcess and hp = hp and pm = pm and a = a and roots = roots] assms
    by simp
  show "roots1 = roots @ (if parentOf pm hp a = None then [a] else [])"
    using assms by (auto simp: lockedUpdate_link_parentOf split: option.splits)
  show "absChildProcs (hp1 ! b) =
           absChildProcs (hp ! b) @ (if b < length hp \<and> parentOf pm hp a = Some b then [a] else [])"
    using assms by (auto simp: lockedUpdate_link_parentOf nth_store split: option.splits)
  show "parentProc (hp1 ! c) =
           (if c = a \<and> a < length hp \<and> parentOf pm hp a \<noteq> None then parentOf pm hp a
            else parentProc (hp ! c))"
    using assms by (auto simp: lockedUpdate_link_parentOf nth_store split: option.splits)
qed

lemma fold_link_exact:
  assumes "fold (lockedUpdate_link pm) as (hp, roots) = (hp', roots')"
  shows "roots' = roots @ filter (\<lambda>a. parentOf pm hp a = None) as"
    and "absChildProcs (hp' ! b) =
           absChildProcs (hp ! b) @
           (if b < length hp then filter (\<lambda>a. parentOf pm hp a = Some b) as else [])"
    and "parentProc (hp' ! c) =
           (if c \<in> set as \<and> c < length hp \<and> parentOf pm hp c \<noteq> None then parentOf pm hp c
            else parentProc (hp ! c))"
proof -
  have "roots' = roots @ filter (\<lambda>a. parentOf pm hp a = None) as \<and>
        absChildProcs (hp' ! b) =
           absChildProcs (hp ! b) @
           (if b < length hp then filter (\<lambda>a. parentOf pm hp a = Some b) as else []) \<and>
        parentProc (hp' ! c) =
           (if c \<in> set as \<and> c < length hp \<and> parentOf pm hp c \<noteq> None then parentOf pm hp c
            else parentProc (hp ! c))"
    using assms
  proof (induction as arbitrary: hp roots)
    case Nil
    then show ?case by simp
  next
    case (Cons a as)
    obtain hp1 roots1 where s: "lockedUpdate_link pm a (hp, roots) = (hp1, roots1)"
      by (cases "lockedUpdate_link pm a (hp, roots)")
    note st = lockedUpdate_link_step[OF s]
    have po: "parentOf pm hp1 = parentOf pm hp" by (rule parentOf_keeps[OF st(4)])
    have len: "length hp1 = length hp" by (rule keeps_length[OF st(4)])
    from Cons.prems have "fold (lockedUpdate_link pm) as (hp1, roots1) = (hp', roots')"
      by (simp add: s)
    note ih = Cons.IH[OF this, unfolded po len]
    show ?case
      unfolding ih[THEN conjunct1] ih[THEN conjunct2, THEN conjunct1]
        ih[THEN conjunct2, THEN conjunct2] st(1) st(2)[of b] st(3)[of c]
      by auto
  qed
  then show "roots' = roots @ filter (\<lambda>a. parentOf pm hp a = None) as"
    and "absChildProcs (hp' ! b) =
           absChildProcs (hp ! b) @
           (if b < length hp then filter (\<lambda>a. parentOf pm hp a = Some b) as else [])"
    and "parentProc (hp' ! c) =
           (if c \<in> set as \<and> c < length hp \<and> parentOf pm hp c \<noteq> None then parentOf pm hp c
            else parentProc (hp ! c))"
    by simp_all
qed

lemma nth_sortAbsChildren:
  "lockedUpdate_sortAbsChildren as hp ! b =
     (if b \<in> set as \<and> b < length hp
      then (hp ! b)\<lparr>absChildProcs := sort_key (lockedPid hp) (absChildProcs (hp ! b))\<rparr>
      else hp ! b)"
proof (induction as arbitrary: hp)
  case Nil
  show ?case by (simp add: lockedUpdate_sortAbsChildren_def)
next
  case (Cons a as)
  let ?hp1 = "store a (\<lambda>p. p\<lparr>absChildProcs := sort_key (lockedPid hp) (absChildProcs p)\<rparr>) hp"
  have k: "lockedPid ?hp1 = lockedPid hp"
    by (rule keeps_lockedPid[OF keeps_store]) simp
  have "lockedUpdate_sortAbsChildren (a # as) hp = lockedUpdate_sortAbsChildren as ?hp1"
    by (simp add: lockedUpdate_sortAbsChildren_def lockedSortProcessesByPid_def)
  then show ?case
    using Cons[of ?hp1]
    by (auto simp: k nth_store sort_key_idem)
qed

lemma lockedUpdate_absolute_exact:
  shows "set (absRootProcs (lockedUpdate_absolute pt)) =
           {a \<in> snd ` set (pidMap pt). parentOf (pidMap pt) (heap pt) a = None}"
    and "set (absChildProcs (heap (lockedUpdate_absolute pt) ! b)) =
           set (absChildProcs (heap pt ! b)) \<union>
           (if b < length (heap pt)
            then {a \<in> snd ` set (pidMap pt). parentOf (pidMap pt) (heap pt) a = Some b} else {})"
    and "parentProc (heap (lockedUpdate_absolute pt) ! c) =
           (if c \<in> snd ` set (pidMap pt) \<and> c < length (heap pt) \<and>
               parentOf (pidMap pt) (heap pt) c \<noteq> None
            then parentOf (pidMap pt) (heap pt) c else parentProc (heap pt ! c))"
proof -
  obtain hp roots where
    f: "fold (lockedUpdate_link (pidMap pt)) (map snd (pidMap pt)) (heap pt, []) = (hp, roots)"
    by (cases "fold (lockedUpdate_link (pidMap pt)) (map snd (pidMap pt)) (heap pt, [])")
  note ex = fold_link_exact[OF f]
  have h: "heap (lockedUpdate_absolute pt) =
             lockedUpdate_sortAbsChildren (lockedSortProcessesByPid hp (map snd (pidMap pt))) hp"
    and r: "absRootProcs (lockedUpdate_absolute pt) = lockedSortProcessesByPid hp roots"
    by (simp_all add: lockedUpdate_absolute_def f Let_def)
  show "set (absRootProcs (lockedUpdate_absolute pt)) =
           {a \<in> snd ` set (pidMap pt). parentOf (pidMap pt) (heap pt) a = None}"
    unfolding r ex(1) by (auto simp: lockedSortProcessesByPid_def)
  show "set (absChildProcs (heap (lockedUpdate_absolute pt) ! b)) =
           set (absChildProcs (heap pt ! b)) \<union>
           (if b < length (heap pt)
            then {a \<in> snd ` set (pidMap pt). parentOf (pidMap pt) (heap pt) a = Some b} else {})"
    unfolding h nth_sortAbsChildren by (auto simp: ex(2))
  show "parentProc (heap (lockedUpdate_absolute pt) ! c) =
           (if c \<in> snd ` set (pidMap pt) \<and> c < length (heap pt) \<and>
               parentOf (pidMap pt) (heap pt) c \<noteq> None
            then parentOf (pidMap pt) (heap pt) c else parentProc (heap pt ! c))"
    unfolding h nth_sortAbsChildren by (auto simp: ex(3))
qed

lemma lockedUpdate_collect_exact:
  assumes "lockedUpdate_collect a (hp, incl, roots) = (hp1, incl1, roots1)"
  shows "incl1 = incl @ (if isIncluded (hp ! a) then [a] else [])"
    and "roots1 = roots @ (if isIncluded (hp ! a) \<and> isIncludedRoot hp a then [a] else [])"
    and "includedChildProcs (hp1 ! b) =
           includedChildProcs (hp ! b) @
           (if b < length hp \<and> isIncluded (hp ! a) \<and> parentProc (hp ! a) = Some b then [a] else [])"
  using assms
  by (auto simp: lockedUpdate_collect_def Let_def nth_store isIncludedRoot_def
           split: if_splits option.splits)

lemma fold_collect_exact:
  assumes "fold lockedUpdate_collect as (hp, incl, roots) = (hp', incl', roots')"
  shows "incl' = incl @ filter (\<lambda>a. isIncluded (hp ! a)) as"
    and "roots' = roots @ filter (\<lambda>a. isIncluded (hp ! a) \<and> isIncludedRoot hp a) as"
    and "includedChildProcs (hp' ! b) =
           includedChildProcs (hp ! b) @
           (if b < length hp
            then filter (\<lambda>a. isIncluded (hp ! a) \<and> parentProc (hp ! a) = Some b) as else [])"
proof -
  have "incl' = incl @ filter (\<lambda>a. isIncluded (hp ! a)) as \<and>
        roots' = roots @ filter (\<lambda>a. isIncluded (hp ! a) \<and> isIncludedRoot hp a) as \<and>
        includedChildProcs (hp' ! b) =
           includedChildProcs (hp ! b) @
           (if b < length hp
            then filter (\<lambda>a. isIncluded (hp ! a) \<and> parentProc (hp ! a) = Some b) as else [])"
    using assms
  proof (induction as arbitrary: hp incl roots)
    case Nil
    then show ?case by simp
  next
    case (Cons a as)
    obtain hp1 incl1 roots1 where
      s: "lockedUpdate_collect a (hp, incl, roots) = (hp1, incl1, roots1)"
      by (cases "lockedUpdate_collect a (hp, incl, roots)") auto
    note st = lockedUpdate_collect_exact[OF s]
    have k: "keeps isIncluded hp hp1" "keeps parentProc hp hp1"
      using keeps_collect[where f = isIncluded and s = "(hp, incl, roots)" and a = a]
        keeps_collect[where f = parentProc and s = "(hp, incl, roots)" and a = a]
      by (simp_all add: s)
    have inc: "\<And>x. isIncluded (hp1 ! x) = isIncluded (hp ! x)"
      and par: "\<And>x. parentProc (hp1 ! x) = parentProc (hp ! x)"
      and len: "length hp1 = length hp"
      using k by (simp_all add: keeps_def)
    have root: "isIncludedRoot hp1 = isIncludedRoot hp"
      by (auto simp: isIncludedRoot_def inc par fun_eq_iff split: option.splits)
    from Cons.prems have "fold lockedUpdate_collect as (hp1, incl1, roots1) = (hp', incl', roots')"
      by (simp add: s)
    note ih = Cons.IH[OF this, unfolded inc par len root]
    show ?case
      unfolding ih[THEN conjunct1] ih[THEN conjunct2, THEN conjunct1]
        ih[THEN conjunct2, THEN conjunct2] st(1) st(2) st(3)[of b]
      by auto
  qed
  then show "incl' = incl @ filter (\<lambda>a. isIncluded (hp ! a)) as"
    and "roots' = roots @ filter (\<lambda>a. isIncluded (hp ! a) \<and> isIncludedRoot hp a) as"
    and "includedChildProcs (hp' ! b) =
           includedChildProcs (hp ! b) @
           (if b < length hp
            then filter (\<lambda>a. isIncluded (hp ! a) \<and> parentProc (hp ! a) = Some b) as else [])"
    by simp_all
qed

lemma lockedUpdate_included_exact:
  shows "set (includedProcs (lockedUpdate_included pt)) =
           {a \<in> set (absProcs pt). isIncluded (heap pt ! a)}"
    and "set (includedRootProcs (lockedUpdate_included pt)) =
           {a \<in> set (absProcs pt). isIncluded (heap pt ! a) \<and> isIncludedRoot (heap pt) a}"
    and "set (includedChildProcs (heap (lockedUpdate_included pt) ! b)) =
           set (includedChildProcs (heap pt ! b)) \<union>
           (if b < length (heap pt)
            then {a \<in> set (absProcs pt). isIncluded (heap pt ! a) \<and> parentProc (heap pt ! a) = Some b}
            else {})"
proof -
  obtain hp incl roots where
    f: "fold lockedUpdate_collect (absProcs pt) (heap pt, [], []) = (hp, incl, roots)"
    by (cases "fold lockedUpdate_collect (absProcs pt) (heap pt, [], [])")
  note ex = fold_collect_exact[OF f]
  show "set (includedProcs (lockedUpdate_included pt)) =
           {a \<in> set (absProcs pt). isIncluded (heap pt ! a)}"
    by (auto simp: lockedUpdate_included_def f lockedSortProcessesByPid_def ex(1))
  show "set (includedRootProcs (lockedUpdate_included pt)) =
           {a \<in> set (absProcs pt). isIncluded (heap pt ! a) \<and> isIncludedRoot (heap pt) a}"
    by (auto simp: lockedUpdate_included_def f lockedSortProcessesByPid_def ex(2))
  show "set (includedChildProcs (heap (lockedUpdate_included pt) ! b)) =
           set (includedChildProcs (heap pt ! b)) \<union>
           (if b < length (heap pt)
            then {a \<in> set (absProcs pt). isIncluded (heap pt ! a) \<and> parentProc (heap pt ! a) = Some b}
            else {})"
    by (auto simp: lockedUpdate_included_def f nth_sortIncludedChildren ex(3))
qed

lemma lockedUpdate_Inr_reconciled:
  "lockedUpdate n b (Inr gs) pt =
     (case lockedUpdate_resolve (rootPids (cfg pt) \<noteq> []) (reconciled b gs pt) of
        Inl err \<Rightarrow> Some (Some err, (reconciled b gs pt)\<lparr>cfgRootProcs := None\<rparr>)
      | Inr pt4 \<Rightarrow>
          thenStage (lockedUpdate_include n (rootPids (cfg pt) \<noteq> []) (lockedUpdate_absolute pt4))
            (\<lambda>pt5. thenStage (lockedUpdate_kthreads n pt5)
              (\<lambda>pt6. Some (None, lockedUpdate_included pt6))))"
  unfolding lockedUpdate_def reconciled_def Let_def by simp

lemma absRootProcs_included [simp]:
  "absRootProcs (lockedUpdate_included pt) = absRootProcs pt"
  by (simp add: lockedUpdate_included_def split: prod.splits)

lemma reconciled_no_prune:
  "reconciled False gs pt =
     lockedUpdate_reconcile (rootPids (cfg pt) \<noteq> []) gs (lockedUpdate_tombstone pt)"
  by (simp add: reconciled_def lockedUpdate_prune_def)

lemma lockedUpdate_tombstone_emptySession [simp]:
  "lockedUpdate_tombstone (emptySession c) = emptySession c"
  by (simp add: lockedUpdate_tombstone_def emptySession_def)

lemma recordsFor_skipped_parent:
  assumes "distinct (map Pid gs)" and "parent \<in> set gs" and "\<not> admitted c parent"
  shows "recordsFor c (Pid parent) gs = []"
proof -
  have "inj_on Pid (set gs)" using assms(1) by (simp add: distinct_map)
  then have "h \<in> set gs \<Longrightarrow> Pid h = Pid parent \<Longrightarrow> h = parent" for h
    using assms(2) by (auto dest: inj_onD)
  then show ?thesis using assms(3) by (auto simp: recordsFor_def filter_empty_conv)
qed

subsection \<open>What the walks mark\<close>

lemma marksKept_refl [simp]: "marksKept hp hp"
  by (simp add: marksKept_def)

lemma marksKept_trans: "marksKept hp hp1 \<Longrightarrow> marksKept hp1 hp2 \<Longrightarrow> marksKept hp hp2"
  by (simp add: marksKept_def)

lemma marksWithin_refl [simp]: "marksWithin S hp hp"
  by (simp add: marksWithin_def)

lemma marksWithin_trans:
  "marksWithin S hp hp1 \<Longrightarrow> marksWithin T hp1 hp2 \<Longrightarrow> marksWithin (S \<union> T) hp hp2"
  by (auto simp: marksWithin_def)

lemma marksWithin_mono: "marksWithin S hp hp' \<Longrightarrow> S \<subseteq> T \<Longrightarrow> marksWithin T hp hp'"
  by (auto simp: marksWithin_def)

lemma childEdges_keeps: "keeps absChildProcs hp hp' \<Longrightarrow> childEdges hp' = childEdges hp"
  by (simp add: childEdges_def keeps_def)

lemma parentSteps_keeps: "keeps parentProc hp hp' \<Longrightarrow> parentSteps hp' = parentSteps hp"
  by (simp add: parentSteps_def keeps_def)

lemma markIncluded_marks:
  assumes "markIncluded p hp = (x, hp1)"
  shows "x = None" and "marksKept hp hp1" and "marksWithin {p} hp hp1"
    and "p < length hp \<Longrightarrow> isIncluded (hp1 ! p)"
    and "keeps absChildProcs hp hp1" and "keeps parentProc hp hp1"
  using assms
  by (auto simp: markIncluded_def marksKept_def marksWithin_def nth_store intro!: keeps_store)

text \<open>The full walk marks its start and nothing but what is below it.\<close>

lemma lockedWalkFullSubtree_children_marks:
  assumes node: "\<And>p hp e hp'. lockedWalkFullSubtree n markIncluded p hp = Some (e, hp') \<Longrightarrow>
      e = None \<and> marksKept hp hp' \<and> marksWithin ((childEdges hp)\<^sup>* `` {p}) hp hp' \<and>
      (p < length hp \<longrightarrow> isIncluded (hp' ! p))"
  shows "lockedWalkFullSubtree_children n markIncluded cs hp = Some (e, hp') \<Longrightarrow>
      e = None \<and> marksKept hp hp' \<and> marksWithin ((childEdges hp)\<^sup>* `` set cs) hp hp' \<and>
      (\<forall>c \<in> set cs. c < length hp \<longrightarrow> isIncluded (hp' ! c))"
proof (induction cs arbitrary: hp)
  case Nil
  then show ?case by simp
next
  case (Cons c cs)
  from Cons.prems obtain x hp1 where w: "lockedWalkFullSubtree n markIncluded c hp = Some (x, hp1)"
    by (cases "lockedWalkFullSubtree n markIncluded c hp") auto
  note n1 = node[OF w]
  have k: "keeps absChildProcs hp hp1"
    using keeps_lockedWalkFullSubtree(1)[where h = markIncluded and f = absChildProcs, OF _ w]
      markIncluded_keeps[where f = absChildProcs] by simp
  have rest: "lockedWalkFullSubtree_children n markIncluded cs hp1 = Some (e, hp')"
    using Cons.prems w n1 by simp
  note ih = Cons.IH[OF rest, unfolded childEdges_keeps[OF k] keeps_length[OF k]]
  have "marksWithin ((childEdges hp)\<^sup>* `` {c} \<union> (childEdges hp)\<^sup>* `` set cs) hp hp'"
    using n1 ih by (auto intro: marksWithin_trans)
  then have "marksWithin ((childEdges hp)\<^sup>* `` set (c # cs)) hp hp'"
    by (rule marksWithin_mono) auto
  moreover have "marksKept hp hp'" using n1 ih by (auto intro: marksKept_trans)
  moreover have "\<forall>c' \<in> set (c # cs). c' < length hp \<longrightarrow> isIncluded (hp' ! c')"
    using n1 ih by (auto simp: marksKept_def)
  ultimately show ?case using ih by simp
qed

lemma lockedWalkFullSubtree_marks:
  "lockedWalkFullSubtree n markIncluded p hp = Some (e, hp') \<Longrightarrow>
      e = None \<and> marksKept hp hp' \<and> marksWithin ((childEdges hp)\<^sup>* `` {p}) hp hp' \<and>
      (p < length hp \<longrightarrow> isIncluded (hp' ! p))"
proof (induction n arbitrary: p hp e hp')
  case 0
  then show ?case by simp
next
  case (Suc n)
  obtain x hp1 where m: "markIncluded p hp = (x, hp1)" by (cases "markIncluded p hp")
  note m1 = markIncluded_marks[OF m]
  have c: "lockedWalkFullSubtree_children n markIncluded (absChildProcs (hp1 ! p)) hp1 = Some (e, hp')"
    using Suc.prems m m1(1) by simp
  have ch: "absChildProcs (hp1 ! p) = absChildProcs (hp ! p)" by (rule keepsD[OF m1(5)])
  note r = lockedWalkFullSubtree_children_marks[OF Suc.IH c,
      unfolded childEdges_keeps[OF m1(5)] keeps_length[OF m1(5)] ch]
  have sub: "{p} \<union> (childEdges hp)\<^sup>* `` set (absChildProcs (hp ! p)) \<subseteq> (childEdges hp)\<^sup>* `` {p}"
    by (auto simp: childEdges_def intro: converse_rtrancl_into_rtrancl)
  have "marksWithin ({p} \<union> (childEdges hp)\<^sup>* `` set (absChildProcs (hp ! p))) hp hp'"
    using marksWithin_trans[OF m1(3)] r by blast
  then have "marksWithin ((childEdges hp)\<^sup>* `` {p}) hp hp'"
    using sub by (rule marksWithin_mono)
  moreover have "marksKept hp hp'" using m1(2) r by (auto intro: marksKept_trans)
  moreover have "p < length hp \<longrightarrow> isIncluded (hp' ! p)"
    using m1(4) r by (auto simp: marksKept_def)
  ultimately show ?case using r by simp
qed

lemma lockedFullWalkFromRoots_marks:
  "lockedFullWalkFromRoots n markIncluded roots hp = Some (e, hp') \<Longrightarrow>
      e = None \<and> marksKept hp hp' \<and> marksWithin ((childEdges hp)\<^sup>* `` set roots) hp hp' \<and>
      (\<forall>r \<in> set roots. r < length hp \<longrightarrow> isIncluded (hp' ! r))"
proof (induction roots arbitrary: hp)
  case Nil
  then show ?case by simp
next
  case (Cons c cs)
  from Cons.prems obtain x hp1 where w: "lockedWalkFullSubtree n markIncluded c hp = Some (x, hp1)"
    by (cases "lockedWalkFullSubtree n markIncluded c hp") auto
  note n1 = lockedWalkFullSubtree_marks[OF w]
  have k: "keeps absChildProcs hp hp1"
    using keeps_lockedWalkFullSubtree(1)[where h = markIncluded and f = absChildProcs, OF _ w]
      markIncluded_keeps[where f = absChildProcs] by simp
  have rest: "lockedFullWalkFromRoots n markIncluded cs hp1 = Some (e, hp')"
    using Cons.prems w n1 by simp
  note ih = Cons.IH[OF rest, unfolded childEdges_keeps[OF k] keeps_length[OF k]]
  have "marksWithin ((childEdges hp)\<^sup>* `` {c} \<union> (childEdges hp)\<^sup>* `` set cs) hp hp'"
    using n1 ih by (auto intro: marksWithin_trans)
  then have "marksWithin ((childEdges hp)\<^sup>* `` set (c # cs)) hp hp'"
    by (rule marksWithin_mono) auto
  moreover have "marksKept hp hp'" using n1 ih by (auto intro: marksKept_trans)
  moreover have "\<forall>c' \<in> set (c # cs). c' < length hp \<longrightarrow> isIncluded (hp' ! c')"
    using n1 ih by (auto simp: marksKept_def)
  ultimately show ?case using ih by simp
qed

text \<open>The ancestry walk marks the whole chain of parents.\<close>

lemma lockedWalkFullAncestry_marks:
  "lockedWalkFullAncestry n markIncluded p hp = Some (e, hp') \<Longrightarrow>
      e = None \<and> marksKept hp hp' \<and>
      (\<forall>q. (p, q) \<in> (parentSteps hp)\<^sup>* \<and> q < length hp \<longrightarrow> isIncluded (hp' ! q))"
proof (induction n arbitrary: p hp)
  case 0
  then show ?case by simp
next
  case (Suc n)
  obtain x hp1 where m: "markIncluded p hp = (x, hp1)" by (cases "markIncluded p hp")
  note m1 = markIncluded_marks[OF m]
  have par: "parentProc (hp1 ! p) = parentProc (hp ! p)" by (rule keepsD[OF m1(6)])
  show ?case
  proof (cases "\<exists>parent. parentProc (hp ! p) = Some parent \<and> parent \<noteq> p")
    case True
    then obtain parent where pp: "parentProc (hp ! p) = Some parent" "parent \<noteq> p" by auto
    then have w: "lockedWalkFullAncestry n markIncluded parent hp1 = Some (e, hp')"
      using Suc.prems m m1(1) par by simp
    note ih = Suc.IH[OF w, unfolded parentSteps_keeps[OF m1(6)] keeps_length[OF m1(6)]]
    have "isIncluded (hp' ! q)" if "(p, q) \<in> (parentSteps hp)\<^sup>*" "q < length hp" for q
      using that(1)
    proof (cases rule: converse_rtranclE)
      case base
      then show ?thesis using m1(4) ih that(2) by (auto simp: marksKept_def)
    next
      case (step y)
      then have "y = parent" using pp by (simp add: parentSteps_def)
      then show ?thesis using step ih that(2) by simp
    qed
    then show ?thesis using ih m1(2) by (auto intro: marksKept_trans)
  next
    case False
    then have "hp' = hp1" "e = None"
      using Suc.prems m m1(1) par by (auto split: option.splits if_splits)
    moreover have "q = p" if "(p, q) \<in> (parentSteps hp)\<^sup>*" for q
      using that False by (cases rule: converse_rtranclE) (auto simp: parentSteps_def)
    ultimately show ?thesis using m1(2,4) by auto
  qed
qed

lemma lockedUpdate_ancestors_marks:
  "lockedUpdate_ancestors n roots hp = Some (e, hp') \<Longrightarrow>
      e = None \<and> marksKept hp hp' \<and>
      (\<forall>r \<in> set roots. \<forall>q. (r, q) \<in> (parentSteps hp)\<^sup>* \<and> q < length hp \<longrightarrow> isIncluded (hp' ! q))"
proof (induction roots arbitrary: hp)
  case Nil
  then show ?case by simp
next
  case (Cons c cs)
  from Cons.prems obtain x hp1 where w: "lockedWalkFullAncestry n markIncluded c hp = Some (x, hp1)"
    by (cases "lockedWalkFullAncestry n markIncluded c hp") auto
  note n1 = lockedWalkFullAncestry_marks[OF w]
  have k: "keeps parentProc hp hp1"
    using keeps_lockedWalkFullAncestry[where h = markIncluded and f = parentProc, OF _ w]
      markIncluded_keeps[where f = parentProc] by simp
  have rest: "lockedUpdate_ancestors n cs hp1 = Some (e, hp')"
    using Cons.prems w n1 by simp
  note ih = Cons.IH[OF rest, unfolded parentSteps_keeps[OF k] keeps_length[OF k]]
  have "marksKept hp hp'" using n1 ih by (auto intro: marksKept_trans)
  moreover have "\<forall>r \<in> set (c # cs). \<forall>q. (r, q) \<in> (parentSteps hp)\<^sup>* \<and> q < length hp \<longrightarrow>
                    isIncluded (hp' ! q)"
    using n1 ih by (auto simp: marksKept_def)
  ultimately show ?case using ih by simp
qed

lemma fresh_record: "fresh fr (heap pt) \<Longrightarrow> fresh fr (heap (lockedUpdate_record fr g pt))"
  by (cases rule: lockedUpdate_record_cases[where pt = pt and g = g and fr = fr])
     (auto simp: fresh_def nth_store nth_append newProcess_def)

lemma fresh_reconcile:
  "fresh fr (heap pt) \<Longrightarrow> fresh fr (heap (lockedUpdate_reconcile fr gs pt))"
  by (rule lockedUpdate_reconcile_induct[where I = "\<lambda>pt. fresh fr (heap pt)"])
     (simp_all add: fresh_record)

lemma fresh_reconciled_emptySession:
  "fresh (rootPids c \<noteq> []) (heap (reconciled False gs (emptySession c)))"
proof -
  have c: "cfg (emptySession c) = c" by (simp add: emptySession_def)
  have "fresh (rootPids c \<noteq> []) (heap (emptySession c))"
    by (simp add: fresh_def emptySession_def)
  then show ?thesis
    using fresh_reconcile[of "rootPids c \<noteq> []" "emptySession c" gs]
    by (simp add: reconciled_no_prune c)
qed

text \<open>The structure that the first update builds from fresh process objects.\<close>

lemma lockedUpdate_absolute_fresh:
  assumes "wellFormed pt" and "fresh fr (heap pt)"
  shows "c \<in> snd ` set (pidMap pt) \<Longrightarrow>
           parentProc (heap (lockedUpdate_absolute pt) ! c) = parentOf (pidMap pt) (heap pt) c"
    and "b < length (heap pt) \<Longrightarrow>
           set (absChildProcs (heap (lockedUpdate_absolute pt) ! b)) =
             {a \<in> snd ` set (pidMap pt). parentOf (pidMap pt) (heap pt) a = Some b}"
    and "a < length (heap pt) \<Longrightarrow> isIncluded (heap (lockedUpdate_absolute pt) ! a) = (\<not> fr)"
proof -
  note ex = lockedUpdate_absolute_exact[of pt]
  show "parentProc (heap (lockedUpdate_absolute pt) ! c) = parentOf (pidMap pt) (heap pt) c"
    if "c \<in> snd ` set (pidMap pt)"
  proof -
    have "c < length (heap pt)" using that assms(1) by (auto simp: wellFormed_def)
    then show ?thesis using that assms(2) by (auto simp: ex(3) fresh_def)
  qed
  show "set (absChildProcs (heap (lockedUpdate_absolute pt) ! b)) =
             {a \<in> snd ` set (pidMap pt). parentOf (pidMap pt) (heap pt) a = Some b}"
    if "b < length (heap pt)"
    using that assms(2) by (simp add: ex(2) fresh_def)
  show "isIncluded (heap (lockedUpdate_absolute pt) ! a) = (\<not> fr)" if "a < length (heap pt)"
    using that assms(2) keepsD[OF keeps_absolute[where f = isIncluded and pt = pt], of a]
    by (simp add: fresh_def)
qed

lemma reach_is_descendant:
  assumes "wellFormed pt" and "fresh fr (heap pt)"
    and "(root, x) \<in> (childEdges (heap (lockedUpdate_absolute pt)))\<^sup>*"
    and "root < length (heap pt)"
  shows "x < length (heap pt) \<and> (x, root) \<in> (parentSteps (heap (lockedUpdate_absolute pt)))\<^sup>*"
  using assms(3)
proof (induction rule: rtrancl_induct)
  case base
  then show ?case using assms(4) by simp
next
  case (step y z)
  note af = lockedUpdate_absolute_fresh[OF assms(1,2)]
  from step.hyps(2) step.IH have "z \<in> snd ` set (pidMap pt)"
    and po: "parentOf (pidMap pt) (heap pt) z = Some y"
    using af(2)[of y] by (auto simp: childEdges_def)
  then have "parentProc (heap (lockedUpdate_absolute pt) ! z) = Some y"
    and lt: "z < length (heap pt)"
    using af(1)[of z] assms(1) by (auto simp: wellFormed_def)
  then have "z = y \<or> (z, y) \<in> parentSteps (heap (lockedUpdate_absolute pt))"
    by (auto simp: parentSteps_def)
  then show ?case using step.IH lt by (auto intro: converse_rtrancl_into_rtrancl)
qed

lemma lockedUpdate_resolve_roots:
  assumes "lockedUpdate_resolve True pt = Inr pt'" and "cfgRootProcs pt = None"
  shows "\<exists>roots. pt' = pt\<lparr>cfgRootProcs := Some roots\<rparr> \<and>
                 map Some roots = map (map_of (pidMap pt)) (rootPids (cfg pt))"
  using assms lockedUpdate_lookupRoots_Inr[of "pidMap pt" "rootPids (cfg pt)" "[]"]
  by (auto simp: lockedUpdate_resolve_def split: sum.splits)

lemma resolved_roots:
  assumes "map Some roots = map (map_of pm) pids"
  shows "root \<in> set roots \<longleftrightarrow> (\<exists>pid \<in> set pids. map_of pm pid = Some root)"
proof -
  have "root \<in> set roots \<longleftrightarrow> Some root \<in> set (map Some roots)" by auto
  also have "\<dots> \<longleftrightarrow> Some root \<in> set (map (map_of pm) pids)" by (simp only: assms)
  also have "\<dots> \<longleftrightarrow> (\<exists>pid \<in> set pids. map_of pm pid = Some root)" by (force simp: image_iff)
  finally show ?thesis .
qed

lemma lockedUpdate_include_fixed:
  assumes "lockedUpdate_include n True pt = Some (None, pt')"
    and "cfgRootProcs pt = Some roots"
  shows "marksKept (heap pt) (heap pt')"
    and "\<forall>r \<in> set roots. r < length (heap pt) \<longrightarrow> isIncluded (heap pt' ! r)"
    and "\<not> includeRootAncestors (cfg pt) \<Longrightarrow>
           marksWithin ((childEdges (heap pt))\<^sup>* `` set roots) (heap pt) (heap pt')"
    and "includeRootAncestors (cfg pt) \<Longrightarrow>
           \<forall>r \<in> set roots. \<forall>q. (r, q) \<in> (parentSteps (heap pt))\<^sup>* \<and> q < length (heap pt) \<longrightarrow>
              isIncluded (heap pt' ! q)"
proof -
  from assms obtain x hp1 where
    w: "lockedFullWalkFromRoots n markIncluded roots (heap pt) = Some (x, hp1)"
    by (cases "lockedFullWalkFromRoots n markIncluded roots (heap pt)")
       (auto simp: lockedUpdate_include_def)
  note m = lockedFullWalkFromRoots_marks[OF w]
  have kp: "keeps parentProc (heap pt) hp1"
    using keeps_lockedFullWalkFromRoots[where h = markIncluded and f = parentProc, OF _ w]
      markIncluded_keeps[where f = parentProc] by simp
  have "marksKept (heap pt) (heap pt') \<and>
        (\<forall>r \<in> set roots. r < length (heap pt) \<longrightarrow> isIncluded (heap pt' ! r)) \<and>
        (\<not> includeRootAncestors (cfg pt) \<longrightarrow>
           marksWithin ((childEdges (heap pt))\<^sup>* `` set roots) (heap pt) (heap pt')) \<and>
        (includeRootAncestors (cfg pt) \<longrightarrow>
           (\<forall>r \<in> set roots. \<forall>q. (r, q) \<in> (parentSteps (heap pt))\<^sup>* \<and> q < length (heap pt) \<longrightarrow>
              isIncluded (heap pt' ! q)))"
  proof (cases "includeRootAncestors (cfg pt)")
    case False
    then have "heap pt' = hp1" using assms w m by (auto simp: lockedUpdate_include_def)
    then show ?thesis using m False by simp
  next
    case True
    from assms w m True obtain y hp2 where
      a: "lockedUpdate_ancestors n roots hp1 = Some (y, hp2)"
      by (cases "lockedUpdate_ancestors n roots hp1") (auto simp: lockedUpdate_include_def)
    note am = lockedUpdate_ancestors_marks[OF a, unfolded parentSteps_keeps[OF kp] keeps_length[OF kp]]
    have "heap pt' = hp2" using assms w m True a am by (auto simp: lockedUpdate_include_def)
    then show ?thesis using m am True by (auto simp: marksKept_def)
  qed
  then show "marksKept (heap pt) (heap pt')"
    and "\<forall>r \<in> set roots. r < length (heap pt) \<longrightarrow> isIncluded (heap pt' ! r)"
    and "\<not> includeRootAncestors (cfg pt) \<Longrightarrow>
           marksWithin ((childEdges (heap pt))\<^sup>* `` set roots) (heap pt) (heap pt')"
    and "includeRootAncestors (cfg pt) \<Longrightarrow>
           \<forall>r \<in> set roots. \<forall>q. (r, q) \<in> (parentSteps (heap pt))\<^sup>* \<and> q < length (heap pt) \<longrightarrow>
              isIncluded (heap pt' ! q)"
    by simp_all
qed

lemma lockedUpdate_kthreads_New:
  assumes "wellFormed pt" and "includeKernelThreads (cfg pt) \<or> kernelFree pt"
    and "lockedUpdate_kthreads n pt = Some (e, pt')"
  shows "pt' = pt"
  using assms lockedUpdate_kthreads_kernelFree[of pt n]
  by (cases "includeKernelThreads (cfg pt)") (auto simp: lockedUpdate_kthreads_def)

text \<open>The stages of a first update that succeeds with configured roots.\<close>

lemma New_fixed_roots_stages:
  assumes new: "New n c (Inr gs) = Some (Inr pt)" and fr: "rootPids c \<noteq> []"
  obtains ptA roots pt5 where
    "ptA = lockedUpdate_absolute ((reconciled False gs (emptySession c))\<lparr>cfgRootProcs := Some roots\<rparr>)"
    "map Some roots = map (map_of (pidMap (reconciled False gs (emptySession c)))) (rootPids c)"
    "lockedUpdate_include n True ptA = Some (None, pt5)"
    "pt = lockedUpdate_included pt5"
proof -
  let ?ptE = "emptySession c"
  let ?ptR = "reconciled False gs ?ptE"
  have c0: "cfg ?ptE = c" by (simp add: emptySession_def)
  from new have u: "lockedUpdate n False (Inr gs) ?ptE = Some (None, pt)"
    by (auto simp: New_def Update_def split: option.splits prod.splits)
  from u show ?thesis
  proof (cases rule: lockedUpdate_Inr_cases)
    case (missing err)
    then show ?thesis by simp
  next
    case (includeFailed pt4 err)
    then show ?thesis by simp
  next
    case (kthreadsFailed pt4 pt5 err)
    then show ?thesis by simp
  next
    case (finished pt4 pt5 pt6)
    from lockedUpdate_resolve_roots[of ?ptR pt4] finished(1) fr obtain roots where
      p4: "pt4 = ?ptR\<lparr>cfgRootProcs := Some roots\<rparr>"
      and rs: "map Some roots = map (map_of (pidMap ?ptR)) (rootPids c)"
      by (auto simp: c0 emptySession_def)
    have wfR: "wellFormed ?ptR" by (rule wellFormed_reconciled[OF wellFormed_emptySession])
    have kfR: "\<not> includeKernelThreads c \<Longrightarrow> kernelFree ?ptR"
      by (rule kernelFree_reconciled[OF wellFormed_emptySession kernelFree_emptySession])
         (simp add: c0)
    note i5 = lockedUpdate_include_raw[OF finished(2)[unfolded c0]]
    have kg: "keeps gopsProcess (heap ?ptR) (heap pt5)"
      using keeps_absolute[where f = gopsProcess and pt = pt4] i5(4)
      by (auto simp: p4 intro: keeps_trans)
    have pm5: "pidMap pt5 = pidMap ?ptR" using i5(2) by (simp add: p4)
    have wf5: "wellFormed pt5" by (rule wellFormed_keeps[OF wfR pm5 kg])
    have c5: "cfg pt5 = c" using i5(1) by (simp add: p4 c0)
    have kf5: "includeKernelThreads (cfg pt5) \<or> kernelFree pt5"
    proof (cases "includeKernelThreads c")
      case True
      then show ?thesis by (simp add: c5)
    next
      case False
      have "kernelFree pt5" by (rule kernelFree_keeps[OF kfR[OF False] _ kg]) (simp add: pm5)
      then show ?thesis by simp
    qed
    have "pt6 = pt5" by (rule lockedUpdate_kthreads_New[OF wf5 kf5 finished(3)])
    then show ?thesis
      using that[of "lockedUpdate_absolute pt4" roots pt5] finished(2,5) rs fr
      by (simp add: p4 c0)
  qed
qed

subsection \<open>Child lists are rebuilt from nothing\<close>

lemma wellFormed_distinct_snd: "wellFormed pt \<Longrightarrow> distinct (map snd (pidMap pt))"
  using wellFormed_map_lockedPid[of pt] wellFormed_distinct[of pt]
  by (metis distinct_map)

lemma lockedUpdate_absolute_distinct:
  assumes "wellFormed pt" and "absChildProcs (heap pt ! b) = []"
  shows "distinct (absChildProcs (heap (lockedUpdate_absolute pt) ! b))"
proof -
  obtain hp roots where
    f: "fold (lockedUpdate_link (pidMap pt)) (map snd (pidMap pt)) (heap pt, []) = (hp, roots)"
    by (cases "fold (lockedUpdate_link (pidMap pt)) (map snd (pidMap pt)) (heap pt, [])")
  note ex = fold_link_exact[OF f]
  have h: "heap (lockedUpdate_absolute pt) =
             lockedUpdate_sortAbsChildren (lockedSortProcessesByPid hp (map snd (pidMap pt))) hp"
    by (simp add: lockedUpdate_absolute_def f Let_def)
  have "distinct (absChildProcs (hp ! b))"
    using wellFormed_distinct_snd[OF assms(1)] by (simp add: ex(2) assms(2))
  then show ?thesis unfolding h nth_sortAbsChildren by simp
qed

lemma lockedUpdate_included_distinct:
  assumes "distinct (absProcs pt)" and "includedChildProcs (heap pt ! b) = []"
  shows "distinct (includedChildProcs (heap (lockedUpdate_included pt) ! b))"
proof -
  obtain hp incl roots where
    f: "fold lockedUpdate_collect (absProcs pt) (heap pt, [], []) = (hp, incl, roots)"
    by (cases "fold lockedUpdate_collect (absProcs pt) (heap pt, [], [])")
  note ex = fold_collect_exact[OF f]
  have "distinct (includedChildProcs (hp ! b))"
    using assms(1) by (simp add: ex(3) assms(2))
  then show ?thesis by (simp add: lockedUpdate_included_def f nth_sortIncludedChildren)
qed

lemma reconciled_known:
  assumes "wellFormed pt" and "map_of (pidMap pt) pid = Some proc"
  shows "absChildProcs (heap (reconciled b gs pt) ! proc) = []"
    and "includedChildProcs (heap (reconciled b gs pt) ! proc) = []"
proof -
  have mem: "proc \<in> snd ` set (pidMap pt)" "proc < length (heap pt)"
    using map_of_SomeD[OF assms(2)] wellFormed_map_of(1)[OF assms] by force+
  have t: "heap (lockedUpdate_tombstone pt) ! proc =
             (heap pt ! proc)\<lparr>isTombstone := True, absChildProcs := [], includedChildProcs := []\<rparr>"
    using mem by (simp add: nth_heap_tombstone)
  note r = nth_heap_reconcile[OF wellFormed_tombstone[OF assms(1)], of pid proc "rootPids (cfg pt) \<noteq> []" gs]
  show "absChildProcs (heap (reconciled b gs pt) ! proc) = []"
    and "includedChildProcs (heap (reconciled b gs pt) ! proc) = []"
    using r assms(2) by (simp_all add: reconciled_def t)
qed

lemma length_heap_record: "length (heap pt) \<le> length (heap (lockedUpdate_record fr g pt))"
  by (cases rule: lockedUpdate_record_cases[where pt = pt and g = g and fr = fr])
     (simp_all add: length_store)

lemma length_heap_reconcile: "length (heap pt) \<le> length (heap (lockedUpdate_reconcile fr gs pt))"
  by (rule lockedUpdate_reconcile_induct[where I = "\<lambda>p. length (heap pt) \<le> length (heap p)"])
     (auto intro: order_trans[OF _ length_heap_record])

lemma length_heap_reconciled: "length (heap pt) \<le> length (heap (reconciled b gs pt))"
  using length_heap_reconcile[of "lockedUpdate_tombstone pt"] by (simp add: reconciled_def)

subsection \<open>Descendants in the enumeration and in the arena\<close>

lemma descendsFrom_mem: "descendsFrom gs pid g \<Longrightarrow> g \<in> set gs"
  by (erule descendsFrom.cases) simp_all

lemma lockedUpdate_reconcile_induct_mem:
  assumes "I pt" and "\<And>g pt. g \<in> set gs \<Longrightarrow> I pt \<Longrightarrow> I (lockedUpdate_record fr g pt)"
  shows "I (lockedUpdate_reconcile fr gs pt)"
  using assms(2)
proof (induction gs rule: rev_induct)
  case Nil
  show ?case using assms(1) by simp
next
  case (snoc g gs)
  show ?case unfolding lockedUpdate_reconcile_snoc
    by (rule snoc.prems) (simp, rule snoc.IH, rule snoc.prems, simp_all)
qed

lemma records_record:
  assumes wf: "wellFormed pt"
    and inv: "\<forall>(pid, a) \<in> set (pidMap pt). gopsProcess (heap pt ! a) \<in> S"
    and g: "g \<in> S"
  shows "\<forall>(pid, a) \<in> set (pidMap (lockedUpdate_record fr g pt)).
           gopsProcess (heap (lockedUpdate_record fr g pt) ! a) \<in> S"
proof (cases rule: lockedUpdate_record_cases[where pt = pt and g = g and fr = fr])
  case skip
  then show ?thesis using inv by simp
next
  case (refresh a)
  show ?thesis unfolding refresh(3) using inv g
    by (auto simp: nth_store list_update_beyond)
next
  case add
  have "a < length (heap pt)" if "(pid, a) \<in> set (pidMap pt)" for pid a
    using wellFormedD(1)[OF wf that] .
  then show ?thesis unfolding add(3) using inv g
    by (auto simp: nth_append newProcess_def)
qed

lemma records_reconcile:
  assumes wf: "wellFormed pt"
    and inv: "\<forall>(pid, a) \<in> set (pidMap pt). gopsProcess (heap pt ! a) \<in> set gs"
  shows "\<forall>(pid, a) \<in> set (pidMap (lockedUpdate_reconcile fr gs pt)).
           gopsProcess (heap (lockedUpdate_reconcile fr gs pt) ! a) \<in> set gs"
proof -
  let ?I = "\<lambda>p. wellFormed p \<and> (\<forall>(pid, a) \<in> set (pidMap p). gopsProcess (heap p ! a) \<in> set gs)"
  have "?I (lockedUpdate_reconcile fr gs pt)"
  proof (rule lockedUpdate_reconcile_induct_mem[where I = ?I])
    show "?I pt" using wf inv by simp
  next
    fix g p assume "g \<in> set gs" and "?I p"
    then show "?I (lockedUpdate_record fr g p)"
      using wellFormed_record[of p fr g] records_record[of p "set gs" g fr] by blast
  qed
  then show ?thesis by simp
qed

lemma records_reconciled_emptySession:
  assumes "a \<in> snd ` set (pidMap (reconciled False gs (emptySession c)))"
  shows "gopsProcess (heap (reconciled False gs (emptySession c)) ! a) \<in> set gs"
proof -
  have c0: "cfg (emptySession c) = c" "pidMap (emptySession c) = []"
    by (simp_all add: emptySession_def)
  have "\<forall>(pid, a) \<in> set (pidMap (lockedUpdate_reconcile (rootPids c \<noteq> []) gs (emptySession c))).
           gopsProcess (heap (lockedUpdate_reconcile (rootPids c \<noteq> []) gs (emptySession c)) ! a) \<in> set gs"
    by (rule records_reconcile[OF wellFormed_emptySession]) (simp add: c0)
  then show ?thesis using assms
    by (auto simp: reconciled_no_prune c0)
qed

lemma lockedWalkFullAncestry_within:
  "lockedWalkFullAncestry n markIncluded p hp = Some (e, hp') \<Longrightarrow>
     marksWithin ((parentSteps hp)\<^sup>* `` {p}) hp hp'"
proof (induction n arbitrary: p hp)
  case 0
  then show ?case by simp
next
  case (Suc n)
  obtain x hp1 where m: "markIncluded p hp = (x, hp1)" by (cases "markIncluded p hp")
  note m1 = markIncluded_marks[OF m]
  have par: "parentProc (hp1 ! p) = parentProc (hp ! p)" by (rule keepsD[OF m1(6)])
  show ?case
  proof (cases "\<exists>parent. parentProc (hp ! p) = Some parent \<and> parent \<noteq> p")
    case True
    then obtain parent where pp: "parentProc (hp ! p) = Some parent" "parent \<noteq> p" by auto
    then have w: "lockedWalkFullAncestry n markIncluded parent hp1 = Some (e, hp')"
      using Suc.prems m m1(1) par by simp
    note ih = Suc.IH[OF w, unfolded parentSteps_keeps[OF m1(6)]]
    have st: "(p, parent) \<in> parentSteps hp" using pp by (simp add: parentSteps_def)
    have "marksWithin ({p} \<union> (parentSteps hp)\<^sup>* `` {parent}) hp hp'"
      by (rule marksWithin_trans[OF m1(3) ih])
    then show ?thesis
      by (rule marksWithin_mono) (use st in \<open>auto intro: converse_rtrancl_into_rtrancl\<close>)
  next
    case False
    then have "hp' = hp1"
      using Suc.prems m m1(1) par by (auto split: option.splits if_splits)
    then show ?thesis using m1(3) by (auto intro: marksWithin_mono)
  qed
qed

lemma lockedUpdate_ancestors_within:
  "lockedUpdate_ancestors n roots hp = Some (e, hp') \<Longrightarrow>
     marksWithin ((parentSteps hp)\<^sup>* `` set roots) hp hp'"
proof (induction roots arbitrary: hp)
  case Nil
  then show ?case by simp
next
  case (Cons c cs)
  from Cons.prems obtain x hp1 where w: "lockedWalkFullAncestry n markIncluded c hp = Some (x, hp1)"
    by (cases "lockedWalkFullAncestry n markIncluded c hp") auto
  note n1 = lockedWalkFullAncestry_marks[OF w]
  note n2 = lockedWalkFullAncestry_within[OF w]
  have k: "keeps parentProc hp hp1"
    using keeps_lockedWalkFullAncestry[where h = markIncluded and f = parentProc, OF _ w]
      markIncluded_keeps[where f = parentProc] by simp
  have rest: "lockedUpdate_ancestors n cs hp1 = Some (e, hp')"
    using Cons.prems w n1 by simp
  note ih = Cons.IH[OF rest, unfolded parentSteps_keeps[OF k]]
  have "marksWithin ((parentSteps hp)\<^sup>* `` {c} \<union> (parentSteps hp)\<^sup>* `` set cs) hp hp'"
    by (rule marksWithin_trans[OF n2 ih])
  then show ?case by (rule marksWithin_mono) auto
qed

lemma lockedUpdate_include_within:
  assumes "lockedUpdate_include n True pt = Some (None, pt')"
    and "cfgRootProcs pt = Some roots"
  shows "marksWithin ((childEdges (heap pt))\<^sup>* `` set roots \<union> (parentSteps (heap pt))\<^sup>* `` set roots)
           (heap pt) (heap pt')"
proof -
  from assms obtain x hp1 where
    w: "lockedFullWalkFromRoots n markIncluded roots (heap pt) = Some (x, hp1)"
    by (cases "lockedFullWalkFromRoots n markIncluded roots (heap pt)")
       (auto simp: lockedUpdate_include_def)
  note m = lockedFullWalkFromRoots_marks[OF w]
  have kp: "keeps parentProc (heap pt) hp1"
    using keeps_lockedFullWalkFromRoots[where h = markIncluded and f = parentProc, OF _ w]
      markIncluded_keeps[where f = parentProc] by simp
  show ?thesis
  proof (cases "includeRootAncestors (cfg pt)")
    case False
    then have "heap pt' = hp1" using assms w m by (auto simp: lockedUpdate_include_def)
    then show ?thesis using m by (auto intro: marksWithin_mono)
  next
    case True
    from assms w m True obtain y hp2 where
      a: "lockedUpdate_ancestors n roots hp1 = Some (y, hp2)"
      by (cases "lockedUpdate_ancestors n roots hp1") (auto simp: lockedUpdate_include_def)
    note am = lockedUpdate_ancestors_marks[OF a]
    note aw = lockedUpdate_ancestors_within[OF a, unfolded parentSteps_keeps[OF kp]]
    have "heap pt' = hp2" using assms w m True a am by (auto simp: lockedUpdate_include_def)
    then show ?thesis using marksWithin_trans[OF _ aw] m by simp
  qed
qed

lemma parentSteps_records:
  assumes wf: "wellFormed pt" and fr: "fresh f (heap pt)"
    and x: "x \<in> snd ` set (pidMap pt)"
    and st: "(x, y) \<in> parentSteps (heap (lockedUpdate_absolute pt))"
  shows "y \<in> snd ` set (pidMap pt)"
    and "PPid (gopsProcess (heap pt ! x)) \<noteq> 0"
    and "PPid (gopsProcess (heap pt ! x)) = Pid (gopsProcess (heap pt ! y))"
proof -
  have "parentOf (pidMap pt) (heap pt) x = Some y"
    using st lockedUpdate_absolute_fresh(1)[OF wf fr x] by (simp add: parentSteps_def)
  then have nz: "PPid (gopsProcess (heap pt ! x)) \<noteq> 0"
    and look: "map_of (pidMap pt) (PPid (gopsProcess (heap pt ! x))) = Some y"
    by (auto simp: parentOf_def Let_def split: if_splits)
  show "PPid (gopsProcess (heap pt ! x)) \<noteq> 0" by (rule nz)
  show "y \<in> snd ` set (pidMap pt)" using map_of_SomeD[OF look] by force
  show "PPid (gopsProcess (heap pt ! x)) = Pid (gopsProcess (heap pt ! y))"
    using wellFormed_map_of(2)[OF wf look] by (simp add: lockedPid_def)
qed

lemma descendsFrom_along_parentSteps:
  assumes wf: "wellFormed pt" and fr: "fresh f (heap pt)" and kf: "kernelFree pt"
    and recs: "\<forall>a \<in> snd ` set (pidMap pt). gopsProcess (heap pt ! a) \<in> set gs"
    and d: "distinct (map Pid gs)"
    and x: "x \<in> snd ` set (pidMap pt)"
    and path: "(x, y) \<in> (parentSteps (heap (lockedUpdate_absolute pt)))\<^sup>*"
  shows "y \<in> snd ` set (pidMap pt) \<and>
         (descendsFrom gs 2 (gopsProcess (heap pt ! x)) \<longleftrightarrow>
          descendsFrom gs 2 (gopsProcess (heap pt ! y)))"
  using path
proof (induction rule: rtrancl_induct)
  case base
  show ?case using x by simp
next
  case (step y z)
  note s = parentSteps_records[OF wf fr _ step(2)]
  have y: "y \<in> snd ` set (pidMap pt)" using step.IH by simp
  have z: "z \<in> snd ` set (pidMap pt)" by (rule s(1)[OF y])
  let ?gy = "gopsProcess (heap pt ! y)" and ?gz = "gopsProcess (heap pt ! z)"
  have my: "?gy \<in> set gs" and mz: "?gz \<in> set gs" using recs y z by auto
  have up: "descendsFrom gs 2 ?gy" if "descendsFrom gs 2 ?gz"
    by (rule descendsFrom.deeper[OF my mz s(2)[OF y] s(3)[OF y] that])
  have down: "descendsFrom gs 2 ?gz" if "descendsFrom gs 2 ?gy"
    using that
  proof (cases rule: descendsFrom.cases)
    case child
    then show ?thesis using kf y by (auto simp: kernelFree_def)
  next
    case (deeper h)
    have "Pid h = Pid ?gz" using deeper(4) s(3)[OF y] by simp
    then have "h = ?gz" using d deeper(2) mz by (auto simp: distinct_map inj_on_def)
    then show ?thesis using deeper(5) by simp
  qed
  show ?case using z step.IH up down by blast
qed

section \<open>Failure of the enumeration\<close>

text \<open>
  C1. When the enumeration provider fails, \<^verbatim>\<open>lockedUpdate\<close> (and \<^verbatim>\<open>Update\<close>) returns the
  provider's error and the session is exactly the one it was given: pid map, arena of
  process objects and all derived lists. \<^verbatim>\<open>New\<close> returns the error and no session.
  This holds for every session, every bound and both values of the prune flag.
\<close>

theorem enumeration_error_keeps_session:
  "lockedUpdate n pruneTombstones (Inl err) pt = Some (Some (EnumerationError err), pt) \<and>
   Update n pruneTombstones (Inl err) pt = Some (Some (EnumerationError err), pt) \<and>
   New n c (Inl err) = Some (Inl (EnumerationError err))"
  by (simp add: New_def Update_def lockedUpdate_def)

section \<open>A process that is its own parent\<close>

lemma lockedIsDescendantOf_self_parent_other:
  assumes "lockedIsDescendantOf hp p a = Some y"
  shows "\<not> (parentProc (hp ! p) = Some p \<and> a \<noteq> None \<and> a \<noteq> Some p)"
  by (rule lockedIsDescendantOf.raw_induct
        [where P = "\<lambda>hp p a y. \<not> (parentProc (hp ! p) = Some p \<and> a \<noteq> None \<and> a \<noteq> Some p)",
         OF _ assms])
     (auto split: option.splits if_splits)

lemma lockedIsDescendantOf_diverges:
  assumes "parentProc (hp ! p) = Some p" and "anc \<noteq> p"
  shows "lockedIsDescendantOf hp p (Some anc) = None"
  using lockedIsDescendantOf_self_parent_other [of hp p "Some anc"] assms
  by (cases "lockedIsDescendantOf hp p (Some anc)") auto

lemma lockedWalkFullSubtree_diverges:
  "absChildProcs (hp ! p) = p # rest \<Longrightarrow> lockedWalkFullSubtree n noopHandler p hp = None"
  by (induction n) (auto simp: noopHandler_def)

lemma lockedWalkSubtree_diverges:
  "isIncluded (hp ! p) \<Longrightarrow> includedChildProcs (hp ! p) = p # rest \<Longrightarrow>
   lockedWalkSubtree n noopHandler p hp = None"
  by (induction n) (auto simp: noopHandler_def)

text \<open>
  C2. The enumeration \<open>selfParentEnum\<close> holds a process 5 whose parent pid is 5. \<^verbatim>\<open>New\<close>
  makes the process object at address 0 its own \<^verbatim>\<open>parentProc\<close> and its own child.
  On that object \<^verbatim>\<open>lockedDepth\<close> is 0 and the ancestry walk returns, as the claim says.
  But \<^verbatim>\<open>lockedIsDescendantOf\<close> of the object and itself is true, not false; asked about
  another process (address 1) it never returns, and neither does \<^verbatim>\<open>lockedIsAncestorOf\<close>
  the other way round; and both subtree walks from the object exceed every bound on the
  depth of their recursion.
\<close>

theorem self_parent_breaks_descendant_test_and_subtree_walks:
  "New 0 defaultConfig (Inr selfParentEnum) = Some (Inr selfParentSession) \<and>
   parentProc (heap selfParentSession ! 0) = Some 0 \<and>
   lockedDepth (heap selfParentSession) 0 = Some 0 \<and>
   lockedWalkFullAncestry 1 noopHandler 0 (heap selfParentSession)
     = Some (None, heap selfParentSession) \<and>
   lockedIsDescendantOf (heap selfParentSession) 0 (Some 0) = Some True \<and>
   lockedIsDescendantOf (heap selfParentSession) 0 (Some 1) = None \<and>
   lockedIsAncestorOf (heap selfParentSession) 1 (Some 0) = None \<and>
   (\<forall>n. lockedWalkFullSubtree n noopHandler 0 (heap selfParentSession) = None) \<and>
   (\<forall>n. lockedWalkSubtree n noopHandler 0 (heap selfParentSession) = None)"
proof -
  have new: "New 0 defaultConfig (Inr selfParentEnum) = Some (Inr selfParentSession)"
    by code_simp
  have hp: "heap selfParentSession = selfParentHeap"
    by (simp add: selfParentSession_def)
  have par: "parentProc (selfParentHeap ! 0) = Some 0"
    and abs: "absChildProcs (selfParentHeap ! 0) = 0 # []"
    and inc: "includedChildProcs (selfParentHeap ! 0) = 0 # []" "isIncluded (selfParentHeap ! 0)"
    by (simp_all add: selfParentHeap_def)
  have depth: "lockedDepth selfParentHeap 0 = Some 0"
    unfolding lockedDepth_def by (subst lockedDepth_loop.simps) (simp add: par)
  have anc: "lockedWalkFullAncestry 1 noopHandler 0 selfParentHeap = Some (None, selfParentHeap)"
    by (simp add: noopHandler_def par)
  have self: "lockedIsDescendantOf selfParentHeap 0 (Some 0) = Some True"
    by (subst lockedIsDescendantOf.simps) (simp add: par)
  have other: "lockedIsDescendantOf selfParentHeap 0 (Some 1) = None"
    by (rule lockedIsDescendantOf_diverges [OF par]) simp
  have other': "lockedIsAncestorOf selfParentHeap 1 (Some 0) = None"
    using other by (simp add: lockedIsAncestorOf_def)
  show ?thesis
    using new par depth anc self other other'
      lockedWalkFullSubtree_diverges [OF abs] lockedWalkSubtree_diverges [OF inc(2) inc(1)]
    by (simp add: hp)
qed

section \<open>Order of enumeration and tombstoning\<close>




section \<open>Configured roots that are missing\<close>

text \<open>
  C4. Root pids are configured and not yet resolved (\<^verbatim>\<open>cfgRootProcs\<close> is nil), and one of
  them has no entry in the pid map when \<^verbatim>\<open>lockedUpdate\<close> looks the roots up, that is after
  tombstoning, reconciliation and pruning. Then the update returns the error for a
  configured pid that is missing and leaves \<^verbatim>\<open>cfgRootProcs\<close> nil and the configuration as
  it was, so the next update looks the roots up again. At construction the pid map starts
  empty, so a configured pid with no record that reconciliation applies is missing:
  \<^verbatim>\<open>New\<close> returns the error and no session.
\<close>

theorem missing_configured_root_is_an_error:
  assumes "pid \<in> set (rootPids c)"
  shows "(cfg pt = c \<and> cfgRootProcs pt = None \<and>
          PidProcess (reconciled pruneTombstones gopsProcs pt) pid = None \<longrightarrow>
            (\<exists>missing pt'. Update n pruneTombstones (Inr gopsProcs) pt =
                              Some (Some (RootPidNotFound missing), pt') \<and>
                            missing \<in> set (rootPids c) \<and> cfgRootProcs pt' = None \<and> cfg pt' = c)) \<and>
         (recordsFor c pid gopsProcs = [] \<longrightarrow>
            (\<exists>missing. New n c (Inr gopsProcs) = Some (Inl (RootPidNotFound missing)) \<and>
                       missing \<in> set (rootPids c)))"
proof (intro conjI impI)
  assume a: "cfg pt = c \<and> cfgRootProcs pt = None \<and>
             PidProcess (reconciled pruneTombstones gopsProcs pt) pid = None"
  then obtain missing where
    "lockedUpdate n pruneTombstones (Inr gopsProcs) pt =
       Some (Some (RootPidNotFound missing), (reconciled pruneTombstones gopsProcs pt)\<lparr>cfgRootProcs := None\<rparr>)"
    "missing \<in> set (rootPids (cfg pt))"
    using lockedUpdate_missing_root[of pid pt pruneTombstones gopsProcs n] assms by auto
  then show "\<exists>missing pt'. Update n pruneTombstones (Inr gopsProcs) pt =
                              Some (Some (RootPidNotFound missing), pt') \<and>
                            missing \<in> set (rootPids c) \<and> cfgRootProcs pt' = None \<and> cfg pt' = c"
    using a by (auto simp: Update_def)
next
  assume "recordsFor c pid gopsProcs = []"
  then have "PidProcess (reconciled False gopsProcs (emptySession c)) pid = None"
    by (rule PidProcess_reconciled_emptySession)
  then obtain missing where
    "lockedUpdate n False (Inr gopsProcs) (emptySession c) =
       Some (Some (RootPidNotFound missing),
             (reconciled False gopsProcs (emptySession c))\<lparr>cfgRootProcs := None\<rparr>)"
    "missing \<in> set (rootPids (cfg (emptySession c)))"
    using lockedUpdate_missing_root[of pid "emptySession c" False gopsProcs n] assms
    by (auto simp: emptySession_def)
  then show "\<exists>missing. New n c (Inr gopsProcs) = Some (Inl (RootPidNotFound missing)) \<and>
                       missing \<in> set (rootPids c)"
    by (auto simp: New_def Update_def emptySession_def)
qed

text \<open>
  The scenario of the specification: root pid 9999 is configured and the enumeration
  holds pid 1 only.
\<close>

theorem missing_configured_root_witness:
  "9999 \<in> set (rootPids missingRootConfig) \<and>
   cfg (emptySession missingRootConfig) = missingRootConfig \<and>
   cfgRootProcs (emptySession missingRootConfig) = None \<and>
   PidProcess (reconciled False [gopsRecord 1 0] (emptySession missingRootConfig)) 9999 = None \<and>
   recordsFor missingRootConfig 9999 [gopsRecord 1 0] = [] \<and>
   (\<exists>pt'. Update 0 False (Inr [gopsRecord 1 0]) (emptySession missingRootConfig) =
            Some (Some (RootPidNotFound 9999), pt') \<and> cfgRootProcs pt' = None) \<and>
   New 0 missingRootConfig (Inr [gopsRecord 1 0]) = Some (Inl (RootPidNotFound 9999))"
proof -
  have m: "9999 \<in> set (rootPids missingRootConfig)" by (simp add: missingRootConfig_def)
  have r: "recordsFor missingRootConfig 9999 [gopsRecord 1 0] = []"
    by (simp add: recordsFor_def gopsRecord_def)
  have p: "PidProcess (reconciled False [gopsRecord 1 0] (emptySession missingRootConfig)) 9999 = None"
    by (rule PidProcess_reconciled_emptySession[OF r])
  have e: "cfg (emptySession missingRootConfig) = missingRootConfig"
    "cfgRootProcs (emptySession missingRootConfig) = None"
    by (simp_all add: emptySession_def)
  have s: "set (rootPids missingRootConfig) = {9999}" by (simp add: missingRootConfig_def)
  show ?thesis
    using missing_configured_root_is_an_error[OF m, where pt = "emptySession missingRootConfig"
        and pruneTombstones = False and gopsProcs = "[gopsRecord 1 0]" and n = 0] m r p e
    unfolding s by auto
qed

section \<open>Identity of process objects across updates\<close>

text \<open>
  C5, as stated, fails. Pid 7 is in the enumerations of two consecutive updates, but in
  the second one its parent pid is 2: with kernel threads excluded the record is skipped,
  the process object of pid 7 stays a tombstone, and the pruning update deletes it. The
  lookup by pid returns the object at address 1 before the second update and nothing
  after it.
\<close>

theorem present_pid_identity_counterexample:
  "New 0 defaultConfig (Inr [gopsRecord 1 0, gopsRecord 7 1]) = Some (Inr recycleSessionA) \<and>
   PidProcess recycleSessionA 7 = Some 1 \<and>
   Update 0 True (Inr [gopsRecord 1 0, gopsRecord 2 0, gopsRecord 7 2]) recycleSessionA =
     Some (None, recycleSessionB) \<and>
   PidProcess recycleSessionB 7 = None"
  by code_simp

text \<open>
  C5, amended. A pid that the session knows and for which the enumeration of the next
  update holds a record that reconciliation applies (it is not skipped by the guard on
  kernel threads) is looked up to the same process object after the update, whether the
  update prunes or not and whether it ends with an error or not; the object is no
  tombstone and carries the last such record.
\<close>

theorem rediscovered_pid_keeps_its_process:
  assumes "wellFormed pt" and "PidProcess pt pid = Some proc"
    and "recordsFor (cfg pt) pid gopsProcs \<noteq> []"
    and "Update n pruneTombstones (Inr gopsProcs) pt = Some (r, pt')"
  shows "PidProcess pt' pid = Some proc \<and> \<not> isTombstone (heap pt' ! proc) \<and>
         gopsProcess (heap pt' ! proc) = last (recordsFor (cfg pt) pid gopsProcs)"
  using lockedUpdate_known_pid(1)[of pt pid proc n pruneTombstones gopsProcs r pt'] assms
  by (simp add: PidProcess_def Update_def)

theorem rediscovered_pid_witness:
  "wellFormed recycleSessionA \<and> PidProcess recycleSessionA 7 = Some 1 \<and>
   recordsFor (cfg recycleSessionA) 7 [gopsRecord 1 0, gopsRecord 7 1] \<noteq> [] \<and>
   Update 0 True (Inr [gopsRecord 1 0, gopsRecord 7 1]) recycleSessionA = Some (None, recycleSessionA) \<and>
   PidProcess recycleSessionA 7 = Some 1 \<and> \<not> isTombstone (heap recycleSessionA ! 1) \<and>
   gopsProcess (heap recycleSessionA ! 1) = gopsRecord 7 1"
proof -
  have wf: "wellFormed recycleSessionA" by code_simp
  have p: "PidProcess recycleSessionA 7 = Some 1" by code_simp
  have r: "recordsFor (cfg recycleSessionA) 7 [gopsRecord 1 0, gopsRecord 7 1] = [gopsRecord 7 1]"
    by code_simp
  have u: "Update 0 True (Inr [gopsRecord 1 0, gopsRecord 7 1]) recycleSessionA = Some (None, recycleSessionA)"
    by code_simp
  show ?thesis
    using rediscovered_pid_keeps_its_process[OF wf p _ u] wf p r u by simp
qed

section \<open>Tombstones\<close>

text \<open>
  C6, as stated, fails in its middle part. After the chain 1, 100, 200 only pid 1 is
  enumerated, without pruning. The process object of pid 100 is still found and is a
  tombstone, but its structure is not cleared: its parent pointer still is the object of
  pid 1, its absolute and included child lists hold the object of pid 200 again, and it
  is itself in the child list of its parent.
\<close>

theorem tombstone_structure_counterexample:
  "New 0 defaultConfig (Inr [gopsRecord 1 0, gopsRecord 100 1, gopsRecord 200 100]) = Some (Inr tombSessionA) \<and>
   Update 0 False (Inr [gopsRecord 1 0]) tombSessionA = Some (None, tombSessionB) \<and>
   PidProcess tombSessionB 100 = Some 1 \<and>
   isTombstone (heap tombSessionB ! 1) \<and>
   parentProc (heap tombSessionB ! 1) = Some 0 \<and>
   absChildProcs (heap tombSessionB ! 1) = [2] \<and>
   Children (heap tombSessionB) 1 = [2] \<and>
   absChildProcs (heap tombSessionB ! 0) = [1]"
  by code_simp

text \<open>
  C6, amended. A pid that the session knows and that no applied record of update B
  (without pruning) names is still looked up to the same process object after B; the
  object is a tombstone and keeps its last raw record. A following update C with pruning,
  in which again no applied record names the pid, makes the lookup return nothing.
\<close>

theorem vanished_pid_tombstoned_then_pruned:
  assumes "wellFormed pt" and "PidProcess pt pid = Some proc"
    and "recordsFor (cfg pt) pid gopsProcsB = []" and "recordsFor (cfg pt) pid gopsProcsC = []"
    and "Update n False (Inr gopsProcsB) pt = Some (rB, ptB)"
    and "Update m True (Inr gopsProcsC) ptB = Some (rC, ptC)"
  shows "PidProcess ptB pid = Some proc \<and> isTombstone (heap ptB ! proc) \<and>
         gopsProcess (heap ptB ! proc) = gopsProcess (heap pt ! proc) \<and>
         PidProcess ptC pid = None"
proof -
  have b: "map_of (pidMap ptB) pid = Some proc \<and> isTombstone (heap ptB ! proc) \<and>
           gopsProcess (heap ptB ! proc) = gopsProcess (heap pt ! proc)"
    using lockedUpdate_known_pid(2)[of pt pid proc n False gopsProcsB rB ptB] assms(1,2,3,5)
    by (simp add: PidProcess_def Update_def)
  have wfB: "wellFormed ptB" by (rule wellFormed_Update[OF assms(1,5)])
  have cfgB: "cfg ptB = cfg pt"
    using lockedUpdate_Inr_frame(1)[of n False gopsProcsB pt rB ptB] assms(5) by (simp add: Update_def)
  have "map_of (pidMap ptC) pid = None"
    using lockedUpdate_known_pid(2)[of ptB pid proc m True gopsProcsC rC ptC] wfB b assms(4,6) cfgB
    by (simp add: Update_def)
  then show ?thesis using b by (simp add: PidProcess_def)
qed

theorem vanished_pid_witness:
  "wellFormed tombSessionA \<and> PidProcess tombSessionA 100 = Some 1 \<and>
   recordsFor (cfg tombSessionA) 100 [gopsRecord 1 0] = [] \<and>
   Update 0 False (Inr [gopsRecord 1 0]) tombSessionA = Some (None, tombSessionB) \<and>
   Update 0 True (Inr [gopsRecord 1 0]) tombSessionB = Some (None, tombSessionC) \<and>
   PidProcess tombSessionB 100 = Some 1 \<and> isTombstone (heap tombSessionB ! 1) \<and>
   gopsProcess (heap tombSessionB ! 1) = gopsProcess (heap tombSessionA ! 1) \<and>
   PidProcess tombSessionC 100 = None"
proof -
  have wf: "wellFormed tombSessionA" by code_simp
  have p: "PidProcess tombSessionA 100 = Some 1" by code_simp
  have r: "recordsFor (cfg tombSessionA) 100 [gopsRecord 1 0] = []" by code_simp
  have uB: "Update 0 False (Inr [gopsRecord 1 0]) tombSessionA = Some (None, tombSessionB)"
    by code_simp
  have uC: "Update 0 True (Inr [gopsRecord 1 0]) tombSessionB = Some (None, tombSessionC)"
    by code_simp
  show ?thesis
    using vanished_pid_tombstoned_then_pruned[OF wf p r r uB uC] wf p r uB uC by simp
qed

section \<open>Order of the lists\<close>

text \<open>
  For the process objects of the pid map the order holds. After every successful update
  of a well-formed session (every session that \<^verbatim>\<open>New\<close>
  and \<^verbatim>\<open>Update\<close> produce is one), the pids along \<^verbatim>\<open>Processes()\<close>, along \<^verbatim>\<open>Roots()\<close>
  and along \<^verbatim>\<open>Children()\<close> of every process of the pid map are strictly ascending: sorted
  by pid with no pid twice.
\<close>

lemma lists_strictly_ascending_by_pid:
  assumes "wellFormed pt"
    and "Update n pruneTombstones (Inr gopsProcs) pt = Some (None, pt')"
  shows "sorted_wrt (<) (map (lockedPid (heap pt')) (Processes pt')) \<and>
         sorted_wrt (<) (map (lockedPid (heap pt')) (Roots pt')) \<and>
         (\<forall>(pid, proc) \<in> set (pidMap pt').
            sorted_wrt (<) (map (lockedPid (heap pt')) (Children (heap pt') proc)))"
proof -
  from assms obtain pt6 where pt': "pt' = lockedUpdate_included pt6"
    and srt: "sorted_wrt (<) (map (lockedPid (heap pt6)) (absProcs pt6))"
    and cl: "childless pt6"
    by (auto simp: Update_def elim: lockedUpdate_before_included)
  note s = lockedUpdate_included_sorted[OF srt]
  have "sorted_wrt (<) (map (lockedPid (heap pt')) (Children (heap pt') proc))"
    if "(pid, proc) \<in> set (pidMap pt')" for pid proc
  proof -
    have "includedChildProcs (heap pt6 ! proc) = []"
      using that cl by (auto simp: pt' childless_def)
    then show ?thesis unfolding pt' Children_def by (rule s(3))
  qed
  then show ?thesis using s(1,2) by (auto simp: pt' Processes_def Roots_def)
qed

text \<open>
  The enumeration \<open>shuffledEnum\<close> lists the children 300, 200, 100 of pid 1 out of order;
  the lists of the session come out in pid order.
\<close>

lemma lists_strictly_ascending_example:
  "wellFormed (emptySession defaultConfig) \<and>
   Update 0 False (Inr shuffledEnum) (emptySession defaultConfig) = Some (None, shuffledSession) \<and>
   (1, 1) \<in> set (pidMap shuffledSession) \<and>
   map (lockedPid (heap shuffledSession)) (Processes shuffledSession) = [1, 100, 200, 300] \<and>
   map (lockedPid (heap shuffledSession)) (Roots shuffledSession) = [1] \<and>
   map (lockedPid (heap shuffledSession)) (Children (heap shuffledSession) 1) = [100, 200, 300] \<and>
   sorted_wrt (<) (map (lockedPid (heap shuffledSession)) (Processes shuffledSession)) \<and>
   sorted_wrt (<) (map (lockedPid (heap shuffledSession)) (Roots shuffledSession)) \<and>
   sorted_wrt (<) (map (lockedPid (heap shuffledSession)) (Children (heap shuffledSession) 1))"
proof -
  have u: "Update 0 False (Inr shuffledEnum) (emptySession defaultConfig) = Some (None, shuffledSession)"
    by code_simp
  have m: "(1, 1) \<in> set (pidMap shuffledSession)"
    by (simp add: shuffledSession_def)
  have v: "map (lockedPid (heap shuffledSession)) (Processes shuffledSession) = [1, 100, 200, 300]"
    "map (lockedPid (heap shuffledSession)) (Roots shuffledSession) = [1]"
    "map (lockedPid (heap shuffledSession)) (Children (heap shuffledSession) 1) = [100, 200, 300]"
    by code_simp+
  show ?thesis
    using lists_strictly_ascending_by_pid[OF wellFormed_emptySession u] u m v
      wellFormed_emptySession[of defaultConfig]
    by auto
qed

text \<open>
  C9. The order fails for a process object that was pruned and is still the
  \<^verbatim>\<open>parentProc\<close> of a live process: \<^verbatim>\<open>lockedUpdate\<close> never resets \<^verbatim>\<open>parentProc\<close> when the
  parent pid is no longer found. After the chain 1, 100, 200, pid 100 is gone and pid 200
  still names it as its parent. The first pruning update removes the object of pid 100
  from the pid map; from then on its child lists are neither cleared nor sorted, and
  every update appends pid 200 to its included children once more. After the second
  update \<^verbatim>\<open>Parent()\<close> of pid 200 still returns that object, and its \<^verbatim>\<open>Children()\<close> hold
  pid 200 twice. Pid 200 is an absolute root of the session and is not in \<^verbatim>\<open>Roots()\<close>.
\<close>

theorem pruned_parent_lists_child_twice:
  "New 0 defaultConfig (Inr [gopsRecord 1 0, gopsRecord 100 1, gopsRecord 200 100]) =
     Some (Inr tombSessionA) \<and>
   Update 0 True (Inr orphanEnum) tombSessionA = Some (None, orphanSessionB) \<and>
   Update 0 True (Inr orphanEnum) orphanSessionB = Some (None, orphanSessionC) \<and>
   PidProcess orphanSessionC 100 = None \<and>
   PidProcess orphanSessionC 200 = Some 2 \<and>
   Processes orphanSessionC = [0, 2] \<and>
   lockedParent (heap orphanSessionC) 2 = Some 1 \<and>
   Children (heap orphanSessionC) 1 = [2, 2] \<and>
   map (lockedPid (heap orphanSessionC)) (Children (heap orphanSessionC) 1) = [200, 200] \<and>
   \<not> sorted_wrt (<) (map (lockedPid (heap orphanSessionC)) (Children (heap orphanSessionC) 1)) \<and>
   absRootProcs orphanSessionC = [0, 2] \<and>
   Roots orphanSessionC = [0]"
  by code_simp

section \<open>Kernel threads and configured roots\<close>




section \<open>Children of skipped kernel threads\<close>

text \<open>
  C10, as stated, fails on an update of a session that already knows the parent. Pid 30
  is a child of pid 1 when the session is built; the next enumeration lists it as a child
  of pid 2, so that record is skipped. The process object of pid 30 stays in the pid map
  as a tombstone, pid 50 is linked below it, and pid 50 is neither an absolute root nor in
  \<^verbatim>\<open>Roots()\<close>. It also fails at construction when the enumeration lists pid 30 twice, as a
  child of pid 2 and as a child of pid 1: the second record is applied.
\<close>

theorem child_of_skipped_kernel_thread_counterexample:
  "New 0 defaultConfig (Inr parentKnownEnum) = Some (Inr parentKnownSessionA) \<and>
   Update 0 False (Inr grandchildEnum) parentKnownSessionA = Some (None, parentKnownSessionB) \<and>
   PidProcess parentKnownSessionB 50 = Some 2 \<and>
   gopsProcess (heap parentKnownSessionB ! 2) = gopsRecord 50 30 \<and>
   PidProcess parentKnownSessionB 30 = Some 1 \<and>
   2 \<in> set (Processes parentKnownSessionB) \<and>
   2 \<notin> set (absRootProcs parentKnownSessionB) \<and>
   2 \<notin> set (Roots parentKnownSessionB) \<and>
   New 0 defaultConfig (Inr twiceListedEnum) = Some (Inr parentKnownSessionA) \<and>
   PidProcess parentKnownSessionA 30 = Some 1 \<and>
   2 \<notin> set (absRootProcs parentKnownSessionA) \<and>
   2 \<notin> set (Roots parentKnownSessionA)"
  by code_simp

text \<open>
  C10, amended: at construction. Kernel threads are excluded and no roots are configured.
  The enumeration has one record per pid; the record \<open>g\<close> has neither pid 2 nor parent
  pid 2, and the record of its parent has parent pid 2, so it is skipped. Then \<^verbatim>\<open>New\<close>
  returns a session (for every bound on the walks: none runs) in which the pid of \<open>g\<close> has
  a process object carrying \<open>g\<close>, the parent pid and pid 2 have none, and the object is an
  absolute root, is marked included and is in \<^verbatim>\<open>Processes()\<close> and in \<^verbatim>\<open>Roots()\<close>.
\<close>

theorem child_of_skipped_kernel_thread_is_included_root:
  assumes nk: "\<not> includeKernelThreads c" and nr: "rootPids c = []"
    and d: "distinct (map Pid gopsProcs)"
    and g: "g \<in> set gopsProcs" "Pid g \<noteq> 2" "PPid g \<noteq> 2"
    and par: "parent \<in> set gopsProcs" "Pid parent = PPid g" "PPid parent = 2"
  shows "\<exists>pt proc. New n c (Inr gopsProcs) = Some (Inr pt) \<and>
           PidProcess pt (Pid g) = Some proc \<and> gopsProcess (heap pt ! proc) = g \<and>
           PidProcess pt (PPid g) = None \<and> PidProcess pt kthreadPid = None \<and>
           proc \<in> set (absRootProcs pt) \<and> isIncluded (heap pt ! proc) \<and>
           proc \<in> set (Processes pt) \<and> proc \<in> set (Roots pt)"
proof -
  let ?ptE = "emptySession c"
  let ?ptR = "reconciled False gopsProcs ?ptE"
  let ?ptA = "lockedUpdate_absolute ?ptR"
  let ?hpI = "fold (\<lambda>proc. store proc (\<lambda>p. p\<lparr>isIncluded := True\<rparr>)) (absProcs ?ptA) (heap ?ptA)"
  let ?ptI = "?ptA\<lparr>heap := ?hpI\<rparr>"
  let ?ptF = "lockedUpdate_included ?ptI"
  have c0: "cfg ?ptE = c" "pidMap ?ptE = []" by (simp_all add: emptySession_def)
  have r3: "?ptR = lockedUpdate_reconcile False gopsProcs ?ptE"
    by (simp add: reconciled_no_prune c0 nr)
  have wf3: "wellFormed ?ptR" by (rule wellFormed_reconciled[OF wellFormed_emptySession])
  have kf3: "kernelFree ?ptR"
    by (rule kernelFree_reconciled[OF wellFormed_emptySession kernelFree_emptySession])
       (simp add: c0 nk)
  have adm: "admitted c g" using g by (simp add: admitted_def)
  from lockedUpdate_reconcile_creates[OF wellFormed_emptySession _ g(1) _ d, of c False]
  obtain proc where look: "map_of (pidMap ?ptR) (Pid g) = Some proc"
    and node: "heap ?ptR ! proc = (newProcess g)\<lparr>isIncluded := True\<rparr>"
    using adm by (auto simp: r3 c0)
  have mem: "proc \<in> snd ` set (pidMap ?ptR)" and lt: "proc < length (heap ?ptR)"
    using map_of_SomeD[OF look] wellFormed_map_of(1)[OF wf3 look] by force+
  have "\<not> admitted c parent" using par(3) nk by (simp add: admitted_def)
  then have "recordsFor c (PPid g) gopsProcs = []"
    using recordsFor_skipped_parent[OF d par(1)] par(2) by simp
  then have nopar: "map_of (pidMap ?ptR) (PPid g) = None"
    by (simp add: r3 map_of_reconcile_None c0)
  have po: "parentOf (pidMap ?ptR) (heap ?ptR) proc = None"
    using nopar by (simp add: parentOf_def node newProcess_def Let_def)
  note ex4 = lockedUpdate_absolute_exact[of ?ptR]
  have root4: "proc \<in> set (absRootProcs ?ptA)" using mem po by (simp add: ex4(1))
  have par4: "parentProc (heap ?ptA ! proc) = None"
    using po by (simp add: ex4(3) node newProcess_def)
  have abs4: "proc \<in> set (absProcs ?ptA)" using mem by (simp add: absProcs_absolute)
  have kg4: "keeps gopsProcess (heap ?ptR) (heap ?ptA)"
    by (rule keeps_absolute) simp_all
  have lt4: "proc < length (heap ?ptA)" using lt keeps_length[OF kg4] by simp
  have n5: "?hpI ! proc = (heap ?ptA ! proc)\<lparr>isIncluded := True\<rparr>"
    using abs4 lt4 by (simp add: nth_fold_store_idem)
  have kg5: "keeps gopsProcess (heap ?ptA) ?hpI"
    using keeps_fold_store[where f = gopsProcess and g = "\<lambda>a hp p. p\<lparr>isIncluded := True\<rparr>"]
    by simp
  have wf5: "wellFormed ?ptI"
    by (rule wellFormed_keeps[OF wf3]) (simp_all add: keeps_trans[OF kg4 kg5])
  have kf5: "kernelFree ?ptI"
    by (rule kernelFree_keeps[OF kf3]) (simp_all add: keeps_trans[OF kg4 kg5])
  have res: "lockedUpdate_resolve False ?ptR = Inr ?ptR"
    by (simp add: lockedUpdate_resolve_def)
  have inc: "lockedUpdate_include n False ?ptA = Some (None, ?ptI)"
    by (simp add: lockedUpdate_include_def)
  have kt: "lockedUpdate_kthreads n ?ptI = Some (None, ?ptI)"
    by (rule lockedUpdate_kthreads_kernelFree[OF wf5 kf5])
  have new: "New n c (Inr gopsProcs) = Some (Inr ?ptF)"
    by (simp add: New_def Update_def lockedUpdate_Inr_reconciled c0 nr res inc kt thenStage_def)
  note ex = lockedUpdate_included_exact[of ?ptI]
  have "isIncludedRoot ?hpI proc" by (simp add: isIncludedRoot_def n5 par4)
  then have fin: "proc \<in> set (includedProcs ?ptF)" "proc \<in> set (includedRootProcs ?ptF)"
    using abs4 by (simp_all add: ex(1,2) n5)
  have kg: "keeps gopsProcess ?hpI (heap ?ptF)" "keeps isIncluded ?hpI (heap ?ptF)"
    using keeps_included[where f = gopsProcess and pt = ?ptI]
      keeps_included[where f = isIncluded and pt = ?ptI] by simp_all
  have raw: "gopsProcess (heap ?ptF ! proc) = g"
    using keepsD[OF kg(1), of proc] keepsD[OF kg4, of proc] by (simp add: n5 node newProcess_def)
  have incl: "isIncluded (heap ?ptF ! proc)"
    using keepsD[OF kg(2), of proc] by (simp add: n5)
  have "PidProcess ?ptF (Pid g) = Some proc" "PidProcess ?ptF (PPid g) = None"
    "PidProcess ?ptF kthreadPid = None" "proc \<in> set (absRootProcs ?ptF)"
    using look nopar kernelFree_no_kthreadPid[OF wf3 kf3] root4 by (simp_all add: PidProcess_def)
  then show ?thesis using new raw incl fin by (auto simp: Processes_def Roots_def)
qed

text \<open>
  In \<open>grandchildEnum\<close> pid 50 is a child of the kernel thread 30: a transitive descendant
  of pid 2 that the filtered view includes.
\<close>

theorem child_of_skipped_kernel_thread_witness:
  "\<not> includeKernelThreads defaultConfig \<and> rootPids defaultConfig = [] \<and>
   distinct (map Pid grandchildEnum) \<and>
   gopsRecord 50 30 \<in> set grandchildEnum \<and> gopsRecord 30 2 \<in> set grandchildEnum \<and>
   Pid (gopsRecord 50 30) \<noteq> 2 \<and> PPid (gopsRecord 50 30) \<noteq> 2 \<and>
   Pid (gopsRecord 30 2) = PPid (gopsRecord 50 30) \<and> PPid (gopsRecord 30 2) = 2 \<and>
   New 0 defaultConfig (Inr grandchildEnum) = Some (Inr grandchildSession) \<and>
   PidProcess grandchildSession 50 = Some 1 \<and>
   gopsProcess (heap grandchildSession ! 1) = gopsRecord 50 30 \<and>
   PidProcess grandchildSession 30 = None \<and> PidProcess grandchildSession kthreadPid = None \<and>
   1 \<in> set (absRootProcs grandchildSession) \<and> isIncluded (heap grandchildSession ! 1) \<and>
   1 \<in> set (Processes grandchildSession) \<and> 1 \<in> set (Roots grandchildSession)"
proof -
  have h: "\<not> includeKernelThreads defaultConfig" "rootPids defaultConfig = []"
    "distinct (map Pid grandchildEnum)"
    "gopsRecord 50 30 \<in> set grandchildEnum" "gopsRecord 30 2 \<in> set grandchildEnum"
    by (simp_all add: defaultConfig_def grandchildEnum_def gopsRecord_def)
  have r: "Pid (gopsRecord 50 30) \<noteq> 2" "PPid (gopsRecord 50 30) \<noteq> 2"
    "Pid (gopsRecord 30 2) = PPid (gopsRecord 50 30)" "PPid (gopsRecord 30 2) = 2"
    by (simp_all add: gopsRecord_def)
  have new: "New 0 defaultConfig (Inr grandchildEnum) = Some (Inr grandchildSession)"
    by code_simp
  have look: "PidProcess grandchildSession 50 = Some 1"
    by (simp add: PidProcess_def grandchildSession_def)
  from child_of_skipped_kernel_thread_is_included_root[OF h(1,2,3) h(4) r(1,2) h(5) r(3,4), of 0]
  obtain pt proc where
    "New 0 defaultConfig (Inr grandchildEnum) = Some (Inr pt)"
    "PidProcess pt (Pid (gopsRecord 50 30)) = Some proc"
    and c: "gopsProcess (heap pt ! proc) = gopsRecord 50 30"
      "PidProcess pt (PPid (gopsRecord 50 30)) = None" "PidProcess pt kthreadPid = None"
      "proc \<in> set (absRootProcs pt)" "isIncluded (heap pt ! proc)"
      "proc \<in> set (Processes pt)" "proc \<in> set (Roots pt)"
    by blast
  then have "pt = grandchildSession" "proc = 1"
    using new look by (simp_all add: gopsRecord_def)
  then show ?thesis using c h r new look by (simp add: gopsRecord_def)
qed

section \<open>Ancestors of a configured root\<close>




end
